theory Spec2Isabelle
  imports Complex_Main
begin

section \<open>Failures\<close>

text \<open>
  Every way in which a call can stop without a result is a value:
  a failed \<^verbatim>\<open>assert\<close>, the exception thrown on normalising a zero vector,
  a read outside a vector, a value (infinity, NaN) that has no real number, and
  the read of a property that is not set.
\<close>

datatype error = AssertFailed | NotNormalizable | OutOfBounds | NonFinite | ConfigError

definition bindE :: "error + 'a \<Rightarrow> ('a \<Rightarrow> error + 'b) \<Rightarrow> error + 'b" where
  "bindE m f = (case m of Inl e \<Rightarrow> Inl e | Inr x \<Rightarrow> f x)"

definition nth_chk :: "'a list \<Rightarrow> nat \<Rightarrow> error + 'a" where
  "nth_chk xs i = (if i < length xs then Inr (xs ! i) else Inl OutOfBounds)"

text \<open>A \<^verbatim>\<open>for\<close> loop over a sequence, threading the mutated state and stopping at a failure.\<close>

fun foldE :: "('a \<Rightarrow> 's \<Rightarrow> error + 's) \<Rightarrow> 'a list \<Rightarrow> 's \<Rightarrow> error + 's" where
  "foldE f [] s = Inr s"
| "foldE f (x # xs) s = (case f x s of Inl e \<Rightarrow> Inl e | Inr s' \<Rightarrow> foldE f xs s')"

section \<open>Variables and variable sets\<close>

record Var =
  label :: nat
  states :: nat

type_synonym VarSet = "Var list"

text \<open>
  Modelled from the spec: \<^verbatim>\<open>varset.h\<close> is not among the sources. A VarSet is a
  sequence of variables in label order; variables compare by label; the set
  operations keep the order; the joint state count is the product of the state
  counts, 1 for the empty set.
\<close>

fun vs_union :: "VarSet \<Rightarrow> VarSet \<Rightarrow> VarSet" where
  "vs_union [] B = B"
| "vs_union (a # A) [] = a # A"
| "vs_union (a # A) (b # B) =
     (if label a < label b then a # vs_union A (b # B)
      else if label b < label a then b # vs_union (a # A) B
      else a # vs_union A B)"

definition vs_inter :: "VarSet \<Rightarrow> VarSet \<Rightarrow> VarSet" where
  "vs_inter A B = filter (\<lambda>a. label a \<in> set (map label B)) A"

definition vs_diff :: "VarSet \<Rightarrow> VarSet \<Rightarrow> VarSet" where
  "vs_diff A B = filter (\<lambda>a. label a \<notin> set (map label B)) A"

definition vs_subset :: "VarSet \<Rightarrow> VarSet \<Rightarrow> bool" where
  "vs_subset A B = list_all (\<lambda>a. label a \<in> set (map label B)) A"


definition vs_eq :: "VarSet \<Rightarrow> VarSet \<Rightarrow> bool" where
  "vs_eq A B = (map label A = map label B)"

fun nrStates :: "VarSet \<Rightarrow> nat" where
  "nrStates [] = 1"
| "nrStates (v # V) = states v * nrStates V"

text \<open>
  Modelled from the spec: the linear encoding of a joint state, lowest label least
  significant, and its inverse. A joint state maps labels to states.
\<close>

fun calcState :: "VarSet \<Rightarrow> (nat \<Rightarrow> nat) \<Rightarrow> nat" where
  "calcState [] x = 0"
| "calcState (v # V) x = x (label v) + states v * calcState V x"

fun calcStates :: "VarSet \<Rightarrow> nat \<Rightarrow> (nat \<Rightarrow> nat)" where
  "calcStates [] k = (\<lambda>l. 0)"
| "calcStates (v # V) k = (calcStates V (k div states v)) (label v := k mod states v)"

text \<open>
  Modelled from the spec: \<^verbatim>\<open>index.h\<close> is not among the sources. Entry \<open>k\<close> of
  the index of \<open>inner\<close> in \<open>outer\<close> is the linear index in \<open>inner\<close> of the joint
  state that \<open>k\<close> encodes in \<open>outer\<close>, restricted to \<open>inner\<close>; the index has one
  entry for each joint state of \<open>outer\<close>.
\<close>

definition IndexFor_at :: "VarSet \<Rightarrow> VarSet \<Rightarrow> nat \<Rightarrow> nat" where
  "IndexFor_at inner outer k = calcState inner (calcStates outer k)"

definition IndexFor :: "VarSet \<Rightarrow> VarSet \<Rightarrow> nat list" where
  "IndexFor inner outer = map (IndexFor_at inner outer) [0..<nrStates outer]"

section \<open>Value vectors\<close>

text \<open>
  Modelled from the spec: \<^verbatim>\<open>prob.h\<close> is not among the sources. A value vector
  is a sequence of reals; the operations below are the ones the factor algebra
  and the message kernel call.
\<close>

type_synonym Prob = "real list"

datatype NormType = NORMPROB | NORMLINF

datatype DistType = DISTL1 | DISTLINF | DISTTV | DISTKL | DISTHEL

definition fill :: "Prob \<Rightarrow> real \<Rightarrow> Prob" where
  "fill q c = replicate (length q) c"

definition totalSum :: "Prob \<Rightarrow> real" where
  "totalSum q = fold (\<lambda>x s. s + x) q 0"

definition maxAbs :: "Prob \<Rightarrow> real" where
  "maxAbs q = fold (\<lambda>x z. if \<bar>x\<bar> > z then \<bar>x\<bar> else z) q 0"

fun maxVal :: "Prob \<Rightarrow> error + real" where
  "maxVal [] = Inl OutOfBounds"
| "maxVal (x # xs) = Inr (fold (\<lambda>y z. if z < y then y else z) xs x)"

definition min_Prob :: "Prob \<Rightarrow> Prob \<Rightarrow> error + Prob" where
  "min_Prob a b =
     (if length a = length b
      then Inr (map (\<lambda>(x, y). if x < y then x else y) (zip a b))
      else Inl AssertFailed)"

definition max_Prob :: "Prob \<Rightarrow> Prob \<Rightarrow> error + Prob" where
  "max_Prob a b =
     (if length a = length b
      then Inr (map (\<lambda>(x, y). if x > y then x else y) (zip a b))
      else Inl AssertFailed)"

definition normalize :: "NormType \<Rightarrow> Prob \<Rightarrow> error + Prob" where
  "normalize nt q =
     (let Z = (case nt of NORMPROB \<Rightarrow> totalSum q | NORMLINF \<Rightarrow> maxAbs q)
      in if Z = 0 then Inl NotNormalizable else Inr (map (\<lambda>x. x / Z) q))"

text \<open>
  The logarithm without \<open>keepZero\<close> sends 0 to minus infinity, and a negative entry to
  NaN: neither is a real number, so the model stops there.
\<close>

definition takeLog :: "Prob \<Rightarrow> error + Prob" where
  "takeLog q = (if list_all (\<lambda>x. 0 < x) q then Inr (map ln q) else Inl NonFinite)"

definition takeExp :: "Prob \<Rightarrow> Prob" where
  "takeExp q = map exp q"

definition entropy :: "Prob \<Rightarrow> error + real" where
  "entropy q =
     (if list_all (\<lambda>x. 0 \<le> x) q
      then Inr (fold (\<lambda>x s. if x = 0 then s else s - x * ln x) q 0)
      else Inl NonFinite)"

text \<open>
  The distances between two vectors of equal length. The Kullback-Leibler sum skips
  the entries where the first vector is 0 and has no real value where it diverges.
\<close>

definition KL_term :: "real \<Rightarrow> real \<Rightarrow> error + real" where
  "KL_term a b =
     (if a = 0 then Inr 0
      else if 0 < a \<and> 0 < b then Inr (a * ln (a / b))
      else Inl NonFinite)"

definition dist_Prob :: "Prob \<Rightarrow> Prob \<Rightarrow> DistType \<Rightarrow> error + real" where
  "dist_Prob a b dt =
     (if length a \<noteq> length b then Inl AssertFailed
      else case dt of
        DISTL1 \<Rightarrow> Inr (fold (\<lambda>(x, y) s. s + \<bar>x - y\<bar>) (zip a b) 0)
      | DISTLINF \<Rightarrow> Inr (fold (\<lambda>(x, y) z. if \<bar>x - y\<bar> > z then \<bar>x - y\<bar> else z) (zip a b) 0)
      | DISTTV \<Rightarrow> Inr (fold (\<lambda>(x, y) s. s + \<bar>x - y\<bar>) (zip a b) 0 * (1 / 2))
      | DISTKL \<Rightarrow> foldE (\<lambda>(x, y) s. bindE (KL_term x y) (\<lambda>t. Inr (s + t))) (zip a b) 0
      | DISTHEL \<Rightarrow>
          (if list_all (\<lambda>x. 0 \<le> x) a \<and> list_all (\<lambda>x. 0 \<le> x) b
           then Inr (fold (\<lambda>(x, y) s. s + (sqrt x - sqrt y)\<^sup>2) (zip a b) 0 * (1 / 2))
           else Inl NonFinite))"

section \<open>Factors\<close>

record TFactor =
  vars :: VarSet
  p :: Prob

text \<open>\<^verbatim>\<open>TFactor( const VarSet& ns, Real p )\<close>: all values set to \<open>c\<close>.\<close>

definition TFactor_const :: "VarSet \<Rightarrow> real \<Rightarrow> TFactor" where
  "TFactor_const ns c = \<lparr>vars = ns, p = replicate (nrStates ns) c\<rparr>"

text \<open>\<^verbatim>\<open>dist( f, g, dt )\<close> of \<^verbatim>\<open>factor.h\<close>.\<close>

definition dist :: "TFactor \<Rightarrow> TFactor \<Rightarrow> DistType \<Rightarrow> error + real" where
  "dist f g dt =
     (if vars f = [] \<or> vars g = [] then Inr (- 1)
      else dist_Prob (p f) (p g) dt)"

text \<open>\<^verbatim>\<open>max( f, g )\<close> and \<^verbatim>\<open>min( f, g )\<close> of \<^verbatim>\<open>factor.h\<close>.\<close>

definition max_TFactor :: "TFactor \<Rightarrow> TFactor \<Rightarrow> error + TFactor" where
  "max_TFactor f g =
     (if vs_eq (vars f) (vars g)
      then bindE (min_Prob (p f) (p g)) (\<lambda>q. Inr \<lparr>vars = vars f, p = q\<rparr>)
      else Inl AssertFailed)"

definition min_TFactor :: "TFactor \<Rightarrow> TFactor \<Rightarrow> error + TFactor" where
  "min_TFactor f g =
     (if vs_eq (vars f) (vars g)
      then bindE (max_Prob (p f) (p g)) (\<lambda>q. Inr \<lparr>vars = vars f, p = q\<rparr>)
      else Inl AssertFailed)"

text \<open>
  The invariant of a factor: the variables are in strictly increasing label order,
  and there is one value for each joint state.
\<close>

definition wf_VarSet :: "VarSet \<Rightarrow> bool" where
  "wf_VarSet V = sorted_wrt (\<lambda>a b. label a < label b) V"

definition wf_TFactor :: "TFactor \<Rightarrow> bool" where
  "wf_TFactor f = (wf_VarSet (vars f) \<and> length (p f) = nrStates (vars f))"

text \<open>A joint state gives every variable of the set one of its states.\<close>

definition valid_state :: "VarSet \<Rightarrow> (nat \<Rightarrow> nat) \<Rightarrow> bool" where
  "valid_state V x = list_all (\<lambda>v. x (label v) < states v) V"

text \<open>Variables of the two sets that carry the same label have the same number of states.\<close>

definition consistent :: "VarSet \<Rightarrow> VarSet \<Rightarrow> bool" where
  "consistent A B = list_all (\<lambda>a. list_all (\<lambda>b. label a = label b \<longrightarrow> states a = states b) B) A"

text \<open>Modelled from the spec: the pointwise product of two vectors of \<^verbatim>\<open>prob.h\<close>.\<close>

definition mult_Prob :: "Prob \<Rightarrow> Prob \<Rightarrow> error + Prob" where
  "mult_Prob a b =
     (if length a = length b then Inr (map (\<lambda>(x, y). x * y) (zip a b)) else Inl AssertFailed)"

text \<open>\<^verbatim>\<open>TFactor::operator*\<close>: \<open>times_TFactor f g\<close> is \<^verbatim>\<open>f * g\<close>.\<close>

definition times_TFactor :: "TFactor \<Rightarrow> TFactor \<Rightarrow> error + TFactor" where
  "times_TFactor f g =
     (if vs_eq (vars g) (vars f)
      then bindE (mult_Prob (p f) (p g)) (\<lambda>q. Inr (f\<lparr>p := q\<rparr>))
      else
        let prod = TFactor_const (vs_union (vars f) (vars g)) 0;
            i1 = IndexFor (vars f) (vars prod);
            i2 = IndexFor (vars g) (vars prod)
        in bindE
             (foldE (\<lambda>i q.
                 bindE (nth_chk i1 i) (\<lambda>k1.
                 bindE (nth_chk i2 i) (\<lambda>k2.
                 bindE (nth_chk (p f) k1) (\<lambda>a.
                 bindE (nth_chk (p g) k2) (\<lambda>b.
                 bindE (nth_chk q i) (\<lambda>c. Inr (q[i := c + a * b])))))))
               [0..<length (p prod)] (p prod))
             (\<lambda>q. Inr (prod\<lparr>p := q\<rparr>)))"

text \<open>\<^verbatim>\<open>TFactor::marginal\<close> and \<^verbatim>\<open>TFactor::totalSum\<close>.\<close>

definition marginal :: "TFactor \<Rightarrow> VarSet \<Rightarrow> bool \<Rightarrow> error + TFactor" where
  "marginal f ns normed =
     (let res_ns = vs_inter ns (vars f);
          res = TFactor_const res_ns 0;
          i_res = IndexFor res_ns (vars f)
      in bindE
           (foldE (\<lambda>i q.
               bindE (nth_chk i_res i) (\<lambda>k.
               bindE (nth_chk q k) (\<lambda>c. Inr (q[k := c + p f ! i]))))
             [0..<length (p f)] (p res))
           (\<lambda>q. if normed
                then bindE (normalize NORMPROB q) (\<lambda>q'. Inr (res\<lparr>p := q'\<rparr>))
                else Inr (res\<lparr>p := q\<rparr>)))"

definition totalSum_TFactor :: "TFactor \<Rightarrow> real" where
  "totalSum_TFactor f = totalSum (p f)"

section \<open>The factor graph\<close>

text \<open>
  Modelled from the spec: the factor graph container is not among the sources. It
  is a bipartite graph of variables and factors; a neighbor record carries the index
  of the neighboring node, its own position \<open>iter\<close> in the neighbor list it belongs
  to, and \<open>dual\<close>, the position of the list's owner in the neighbor list of that
  node.
\<close>

record Neighbor =
  iter :: nat
  node :: nat
  dual :: nat

record FactorGraph =
  fg_vars :: "Var list"
  fg_factors :: "TFactor list"
  fg_nbV :: "Neighbor list list"
  fg_nbF :: "Neighbor list list"

section \<open>The BP engine: state\<close>

datatype UpdateType = SEQFIX | SEQRND | SEQMAX | PARALL

record Properties =
  updates :: "UpdateType option"
  tol :: "real option"
  maxiter :: "nat option"
  verbose :: "nat option"
  logdomain :: "bool option"

record EdgeProp =
  index :: "nat list"
  message :: Prob
  newMessage :: Prob
  residual :: real

record BP = FactorGraph +
  props :: Properties
  edges :: "EdgeProp list list"
  logDomain :: bool
  normtype :: NormType
  maxdiff :: real

definition nrVars :: "BP \<Rightarrow> nat" where
  "nrVars bp = length (fg_vars bp)"

definition nrFactors :: "BP \<Rightarrow> nat" where
  "nrFactors bp = length (fg_factors bp)"

definition var :: "BP \<Rightarrow> nat \<Rightarrow> error + Var" where
  "var bp i = nth_chk (fg_vars bp) i"

definition factor :: "BP \<Rightarrow> nat \<Rightarrow> error + TFactor" where
  "factor bp I = nth_chk (fg_factors bp) I"

definition nbV :: "BP \<Rightarrow> nat \<Rightarrow> error + Neighbor list" where
  "nbV bp i = nth_chk (fg_nbV bp) i"

definition nbF :: "BP \<Rightarrow> nat \<Rightarrow> error + Neighbor list" where
  "nbF bp I = nth_chk (fg_nbF bp) I"

text \<open>\<^verbatim>\<open>findVar\<close>: the position of the variable with the label of \<open>n\<close>.\<close>

fun find_label :: "Var list \<Rightarrow> nat \<Rightarrow> nat \<Rightarrow> error + nat" where
  "find_label [] l i = Inl AssertFailed"
| "find_label (v # vs) l i = (if label v = l then Inr i else find_label vs l (Suc i))"

definition findVar :: "BP \<Rightarrow> Var \<Rightarrow> error + nat" where
  "findVar bp n = find_label (fg_vars bp) (label n) 0"

text \<open>
  The edge \<open>(i, sI)\<close> is the \<open>sI\<close>-th neighbor slot of variable \<open>i\<close>;
  \<^verbatim>\<open>message(i,_I)\<close>, \<^verbatim>\<open>newMessage(i,_I)\<close>, \<^verbatim>\<open>index(i,_I)\<close> and
  \<^verbatim>\<open>residual(i,_I)\<close> are the fields of \<^verbatim>\<open>edges[i][_I]\<close>.
\<close>

definition edge :: "BP \<Rightarrow> nat \<Rightarrow> nat \<Rightarrow> error + EdgeProp" where
  "edge bp i sI = bindE (nth_chk (edges bp) i) (\<lambda>row. nth_chk row sI)"

definition upd_edge :: "BP \<Rightarrow> nat \<Rightarrow> nat \<Rightarrow> (EdgeProp \<Rightarrow> EdgeProp) \<Rightarrow> error + BP" where
  "upd_edge bp i sI f =
     bindE (edge bp i sI) (\<lambda>e. Inr (bp\<lparr>edges := (edges bp)[i := (edges bp ! i)[sI := f e]]\<rparr>))"

text \<open>\<^verbatim>\<open>BP::checkProperties\<close>.\<close>

definition checkProperties :: "BP \<Rightarrow> bool \<times> BP" where
  "checkProperties bp =
     (if updates (props bp) = None then (False, bp)
      else if tol (props bp) = None then (False, bp)
      else if maxiter (props bp) = None then (False, bp)
      else if verbose (props bp) = None then (False, bp)
      else case logdomain (props bp) of
             None \<Rightarrow> (False, bp)
           | Some b \<Rightarrow> (True, bp\<lparr>logDomain := b\<rparr>))"

text \<open>
  \<^verbatim>\<open>BP::create\<close>. The index of an edge is filled from the index of the variable in
  the variables of the factor; \<^verbatim>\<open>Prob( n )\<close> is the uniform vector of length \<open>n\<close>.
\<close>

definition Prob_uniform :: "nat \<Rightarrow> Prob" where
  "Prob_uniform n = replicate n (1 / real n)"

definition create :: "BP \<Rightarrow> error + BP" where
  "create bp =
     bindE
       (foldE (\<lambda>i es.
           bindE (nbV bp i) (\<lambda>nbs.
           bindE (var bp i) (\<lambda>v.
           bindE (foldE (\<lambda>I row.
                    bindE (factor bp (node I)) (\<lambda>fI.
                    Inr (row @ [\<lparr>index = IndexFor [v] (vars fI),
                                 message = Prob_uniform (states v),
                                 newMessage = Prob_uniform (states v),
                                 residual = 0\<rparr>])))
                  nbs [])
             (\<lambda>row. Inr (es @ [row])))))
         [0..<nrVars bp] [])
       (\<lambda>es. Inr (bp\<lparr>edges := es\<rparr>))"

text \<open>\<^verbatim>\<open>BP::init()\<close> and \<^verbatim>\<open>BP::init( const VarSet &ns )\<close>.\<close>

definition init :: "BP \<Rightarrow> error + BP" where
  "init bp0 =
     (case checkProperties bp0 of
        (False, bp) \<Rightarrow> Inl AssertFailed
      | (True, bp) \<Rightarrow>
          foldE (\<lambda>i bp.
              bindE (nbV bp i) (\<lambda>nbs.
              foldE (\<lambda>I bp.
                  if logDomain bp
                  then bindE (upd_edge bp i (iter I) (\<lambda>e. e\<lparr>message := fill (message e) 0\<rparr>))
                         (\<lambda>bp. upd_edge bp i (iter I) (\<lambda>e. e\<lparr>newMessage := fill (newMessage e) 0\<rparr>))
                  else bindE (upd_edge bp i (iter I) (\<lambda>e. e\<lparr>message := fill (message e) 1\<rparr>))
                         (\<lambda>bp. upd_edge bp i (iter I) (\<lambda>e. e\<lparr>newMessage := fill (newMessage e) 1\<rparr>)))
                nbs bp))
            [0..<nrVars bp] bp)"

definition init_VarSet :: "BP \<Rightarrow> VarSet \<Rightarrow> error + BP" where
  "init_VarSet bp ns =
     foldE (\<lambda>n bp.
         bindE (findVar bp n) (\<lambda>ni.
         bindE (nbV bp ni) (\<lambda>nbs.
         foldE (\<lambda>I bp.
             upd_edge bp ni (iter I)
               (\<lambda>e. e\<lparr>message := fill (message e) (if logDomain bp then 0 else 1)\<rparr>))
           nbs bp)))
       ns bp"

text \<open>\<^verbatim>\<open>BP::findMaxResidual\<close>: the loop state is \<open>(i, _I, maxres)\<close>.\<close>

definition findMaxResidual :: "BP \<Rightarrow> error + nat \<times> nat" where
  "findMaxResidual bp =
     bindE (edge bp 0 0) (\<lambda>e0.
     bindE
       (foldE (\<lambda>j st.
           bindE (nbV bp j) (\<lambda>nbs.
           foldE (\<lambda>I (i, sI, maxres).
               bindE (edge bp j (iter I)) (\<lambda>e.
               if residual e > maxres then Inr (j, iter I, residual e)
               else Inr (i, sI, maxres)))
             nbs st))
         [0..<nrVars bp] (0, 0, residual e0))
       (\<lambda>(i, sI, maxres). Inr (i, sI)))"

section \<open>The BP engine: message update and beliefs\<close>

text \<open>
  Modelled from the spec: the in-place sum and product of two vectors of equal
  length, and the subtraction of a scalar.
\<close>

definition add_Prob :: "Prob \<Rightarrow> Prob \<Rightarrow> error + Prob" where
  "add_Prob a b =
     (if length a = length b then Inr (map (\<lambda>(x, y). x + y) (zip a b)) else Inl AssertFailed)"

definition sub_scalar :: "Prob \<Rightarrow> real \<Rightarrow> Prob" where
  "sub_scalar q c = map (\<lambda>x. x - c) q"

text \<open>
  \<open>prod_j\<close>: the product (the sum, in the log domain) of the messages coming into
  variable \<open>j\<close> from all its factors except \<open>I\<close>. The message kernel reads the live
  messages, the beliefs read the staged ones: \<open>sel\<close> is the field read.
\<close>

definition calc_prod_j :: "BP \<Rightarrow> (EdgeProp \<Rightarrow> Prob) \<Rightarrow> nat \<Rightarrow> nat \<Rightarrow> error + Prob" where
  "calc_prod_j bp sel j I =
     bindE (var bp j) (\<lambda>vj.
     bindE (nbV bp j) (\<lambda>nbs.
     foldE (\<lambda>J prod_j.
         if node J \<noteq> I
         then bindE (edge bp j (iter J)) (\<lambda>e.
                if logDomain bp then add_Prob prod_j (sel e) else mult_Prob prod_j (sel e))
         else Inr prod_j)
       nbs (replicate (states vj) (if logDomain bp then 0 else 1))))"

text \<open>\<open>multiply prod with prod_j\<close>: the loop over the entries of \<open>prod\<close>.\<close>

definition mult_in :: "bool \<Rightarrow> nat list \<Rightarrow> Prob \<Rightarrow> Prob \<Rightarrow> error + Prob" where
  "mult_in lg ind prod_j prd =
     foldE (\<lambda>r q.
         bindE (nth_chk ind r) (\<lambda>k.
         bindE (nth_chk prod_j k) (\<lambda>v.
         bindE (nth_chk q r) (\<lambda>c.
         Inr (q[r := (if lg then c + v else c * v)])))))
       [0..<length prd] prd"

text \<open>\<open>Marginalize onto i\<close>: the loop that accumulates \<open>prod\<close> into \<open>marg\<close>.\<close>

definition marg_onto :: "nat list \<Rightarrow> Prob \<Rightarrow> Prob \<Rightarrow> error + Prob" where
  "marg_onto ind prd marg =
     foldE (\<lambda>r mg.
         bindE (nth_chk ind r) (\<lambda>k.
         bindE (nth_chk mg k) (\<lambda>c.
         Inr (mg[k := c + prd ! r]))))
       [0..<length prd] marg"

text \<open>The log-domain renormalisation: subtract the maximum, then exponentiate.\<close>

definition unlog :: "bool \<Rightarrow> Prob \<Rightarrow> error + Prob" where
  "unlog lg prd =
     (if lg then bindE (maxVal prd) (\<lambda>m. Inr (takeExp (sub_scalar prd m))) else Inr prd)"

text \<open>\<^verbatim>\<open>BP::calcNewMessage\<close>.\<close>

definition calcNewMessage :: "BP \<Rightarrow> nat \<Rightarrow> nat \<Rightarrow> error + BP" where
  "calcNewMessage bp i sI =
     bindE (nbV bp i) (\<lambda>nbs_i.
     bindE (nth_chk nbs_i sI) (\<lambda>nI.
     let I = node nI in
     bindE (factor bp I) (\<lambda>fI.
     bindE (if logDomain bp then takeLog (p fI) else Inr (p fI)) (\<lambda>prod0.
     bindE (nbF bp I) (\<lambda>nbs_I.
     bindE (foldE (\<lambda>j prod.
              if node j \<noteq> i
              then bindE (edge bp (node j) (dual j)) (\<lambda>ej.
                   bindE (calc_prod_j bp message (node j) I) (\<lambda>prod_j.
                   mult_in (logDomain bp) (index ej) prod_j prod))
              else Inr prod)
            nbs_I prod0) (\<lambda>prod1.
     bindE (unlog (logDomain bp) prod1) (\<lambda>prod.
     bindE (var bp i) (\<lambda>vi.
     bindE (edge bp i sI) (\<lambda>ei.
     bindE (marg_onto (index ei) prod (replicate (states vi) 0)) (\<lambda>marg0.
     bindE (normalize (normtype bp) marg0) (\<lambda>marg.
     if logDomain bp
     then bindE (takeLog marg) (\<lambda>lm. upd_edge bp i sI (\<lambda>e. e\<lparr>newMessage := lm\<rparr>))
     else upd_edge bp i sI (\<lambda>e. e\<lparr>newMessage := marg\<rparr>))))))))))))"

text \<open>\<^verbatim>\<open>BP::beliefV\<close>, \<^verbatim>\<open>BP::belief( const Var &n )\<close> and \<^verbatim>\<open>BP::beliefF\<close>.\<close>

definition beliefV :: "BP \<Rightarrow> nat \<Rightarrow> error + TFactor" where
  "beliefV bp i =
     bindE (var bp i) (\<lambda>vi.
     bindE (nbV bp i) (\<lambda>nbs.
     bindE (foldE (\<lambda>I prod.
              bindE (edge bp i (iter I)) (\<lambda>e.
              if logDomain bp then add_Prob prod (newMessage e)
              else mult_Prob prod (newMessage e)))
            nbs (replicate (states vi) (if logDomain bp then 0 else 1))) (\<lambda>prod1.
     bindE (unlog (logDomain bp) prod1) (\<lambda>prod.
     bindE (normalize NORMPROB prod) (\<lambda>q.
     Inr \<lparr>vars = [vi], p = q\<rparr>)))))"


definition beliefF :: "BP \<Rightarrow> nat \<Rightarrow> error + TFactor" where
  "beliefF bp I =
     bindE (factor bp I) (\<lambda>fI.
     bindE (if logDomain bp then takeLog (p fI) else Inr (p fI)) (\<lambda>prod0.
     bindE (nbF bp I) (\<lambda>nbs_I.
     bindE (foldE (\<lambda>j prod.
              bindE (edge bp (node j) (dual j)) (\<lambda>ej.
              bindE (calc_prod_j bp newMessage (node j) I) (\<lambda>prod_j.
              mult_in (logDomain bp) (index ej) prod_j prod)))
            nbs_I prod0) (\<lambda>prod1.
     bindE (unlog (logDomain bp) prod1) (\<lambda>prod.
     bindE (normalize NORMPROB prod) (\<lambda>q.
     Inr \<lparr>vars = vars fI, p = q\<rparr>))))))"



text \<open>
  \<^verbatim>\<open>BP::logZ\<close>. Modelled from the spec: \<^verbatim>\<open>KL_dist\<close> of two factors is not among
  the sources; it is the Kullback-Leibler divergence of the value vectors.
\<close>

definition entropy_TFactor :: "TFactor \<Rightarrow> error + real" where
  "entropy_TFactor f = entropy (p f)"

definition KL_dist :: "TFactor \<Rightarrow> TFactor \<Rightarrow> error + complex" where
  "KL_dist b f = bindE (dist_Prob (p b) (p f) DISTKL) (\<lambda>d. Inr (complex_of_real d))"

definition logZ :: "BP \<Rightarrow> error + complex" where
  "logZ bp =
     bindE (foldE (\<lambda>i sum.
              bindE (nbV bp i) (\<lambda>nbs.
              bindE (beliefV bp i) (\<lambda>b.
              bindE (entropy_TFactor b) (\<lambda>h.
              Inr (sum + complex_of_real (1 - real (length nbs)) * complex_of_real h)))))
            [0..<nrVars bp] 0) (\<lambda>sum1.
     foldE (\<lambda>I sum.
         bindE (beliefF bp I) (\<lambda>b.
         bindE (factor bp I) (\<lambda>fI.
         bindE (KL_dist b fI) (\<lambda>d.
         Inr (sum - d)))))
       [0..<nrFactors bp] sum1)"

section \<open>The BP engine: schedules\<close>

text \<open>
  \<^verbatim>\<open>Updates()\<close>, \<^verbatim>\<open>Tol()\<close>, \<^verbatim>\<open>MaxIter()\<close> and \<^verbatim>\<open>Verbose()\<close> read a
  property, and fail when it is not set.
\<close>

definition getProp :: "'a option \<Rightarrow> error + 'a" where
  "getProp x = (case x of None \<Rightarrow> Inl ConfigError | Some v \<Rightarrow> Inr v)"

definition Updates :: "BP \<Rightarrow> error + UpdateType" where
  "Updates bp = getProp (updates (props bp))"

definition Tol :: "BP \<Rightarrow> error + real" where
  "Tol bp = getProp (tol (props bp))"

definition MaxIter :: "BP \<Rightarrow> error + nat" where
  "MaxIter bp = getProp (maxiter (props bp))"

definition Verbose :: "BP \<Rightarrow> error + nat" where
  "Verbose bp = getProp (verbose (props bp))"

text \<open>
  Modelled from the spec: \<^verbatim>\<open>diffs.h\<close> is not among the sources. The history is
  bounded: it keeps the last \<open>maxsize\<close> values pushed; its maximum is the default
  value until it is full, and the largest value it keeps afterwards.
\<close>

record Diffs =
  maxsize :: nat
  dflt :: real
  hist :: "real list"

definition Diffs_new :: "nat \<Rightarrow> real \<Rightarrow> Diffs" where
  "Diffs_new n d = \<lparr>maxsize = n, dflt = d, hist = []\<rparr>"

definition Diffs_push :: "Diffs \<Rightarrow> real \<Rightarrow> Diffs" where
  "Diffs_push D x =
     D\<lparr>hist := (if length (hist D) < maxsize D then hist D @ [x] else tl (hist D) @ [x])\<rparr>"

definition Diffs_max :: "Diffs \<Rightarrow> error + real" where
  "Diffs_max D = (if length (hist D) < maxsize D then Inr (dflt D) else maxVal (hist D))"

text \<open>\<^verbatim>\<open>nrEdges()\<close>, and the list of all edges in the order the loops of \<^verbatim>\<open>run\<close> visit them.\<close>

definition nrEdges :: "BP \<Rightarrow> nat" where
  "nrEdges bp = fold (\<lambda>nbs n. n + length nbs) (fg_nbV bp) 0"

definition all_edges :: "BP \<Rightarrow> error + (nat \<times> nat) list" where
  "all_edges bp =
     foldE (\<lambda>i es. bindE (nbV bp i) (\<lambda>nbs. Inr (es @ map (\<lambda>I. (i, iter I)) nbs)))
       [0..<nrVars bp] []"

text \<open>
  The statements of \<^verbatim>\<open>BP::run\<close> on one edge: the commit of the staged message,
  and the residual, the distance between the staged and the live message.
\<close>

definition commit :: "BP \<Rightarrow> nat \<Rightarrow> nat \<Rightarrow> error + BP" where
  "commit bp i sI = upd_edge bp i sI (\<lambda>e. e\<lparr>message := newMessage e\<rparr>)"

definition set_residual :: "BP \<Rightarrow> nat \<Rightarrow> nat \<Rightarrow> real \<Rightarrow> error + BP" where
  "set_residual bp i sI r = upd_edge bp i sI (\<lambda>e. e\<lparr>residual := r\<rparr>)"

definition calc_residual :: "BP \<Rightarrow> nat \<Rightarrow> nat \<Rightarrow> error + BP" where
  "calc_residual bp i sI =
     bindE (edge bp i sI) (\<lambda>e.
     bindE (dist_Prob (newMessage e) (message e) DISTLINF) (\<lambda>d.
     set_residual bp i sI d))"

text \<open>The first pass of the SEQMAX schedule.\<close>

definition seqmax_first_pass :: "BP \<Rightarrow> error + BP" where
  "seqmax_first_pass bp0 =
     foldE (\<lambda>i bp.
         bindE (nbV bp i) (\<lambda>nbs.
         foldE (\<lambda>I bp.
             bindE (calcNewMessage bp i (iter I)) (\<lambda>bp.
             calc_residual bp i (iter I)))
           nbs bp))
       [0..<nrVars bp0] bp0"

text \<open>One step of the SEQMAX schedule: the body of the loop over \<open>t\<close>.\<close>

definition seqmax_step :: "BP \<Rightarrow> error + BP" where
  "seqmax_step bp0 =
     bindE (findMaxResidual bp0) (\<lambda>(i, sI).
     bindE (commit bp0 i sI) (\<lambda>bp1.
     bindE (set_residual bp1 i sI 0) (\<lambda>bp2.
     bindE (nbV bp2 i) (\<lambda>nbs.
     foldE (\<lambda>J bp.
         if iter J \<noteq> sI
         then bindE (nbF bp (node J)) (\<lambda>nbsJ.
              foldE (\<lambda>j bp.
                  if node j \<noteq> i
                  then bindE (calcNewMessage bp (node j) (dual j)) (\<lambda>bp.
                       calc_residual bp (node j) (dual j))
                  else Inr bp)
                nbsJ bp)
         else Inr bp)
       nbs bp2))))"

text \<open>The sweeps of the three kinds of schedule.\<close>

definition sweep_seqmax :: "nat \<Rightarrow> BP \<Rightarrow> error + BP" where
  "sweep_seqmax nredges bp = foldE (\<lambda>t bp. seqmax_step bp) [0..<nredges] bp"

definition sweep_parall :: "BP \<Rightarrow> error + BP" where
  "sweep_parall bp0 =
     bindE (foldE (\<lambda>i bp.
              bindE (nbV bp i) (\<lambda>nbs. foldE (\<lambda>I bp. calcNewMessage bp i (iter I)) nbs bp))
            [0..<nrVars bp0] bp0) (\<lambda>bp1.
     foldE (\<lambda>i bp.
         bindE (nbV bp i) (\<lambda>nbs. foldE (\<lambda>I bp. commit bp i (iter I)) nbs bp))
       [0..<nrVars bp1] bp1)"

definition sweep_seq :: "(nat \<times> nat) list \<Rightarrow> BP \<Rightarrow> error + BP" where
  "sweep_seq update_seq bp0 =
     foldE (\<lambda>e bp. bindE (calcNewMessage bp (fst e) (snd e)) (\<lambda>bp. commit bp (fst e) (snd e)))
       update_seq bp0"

text \<open>\<open>calculate new beliefs and compare with old ones\<close>.\<close>

definition compare_beliefs :: "BP \<Rightarrow> Diffs \<times> TFactor list \<Rightarrow> error + Diffs \<times> TFactor list" where
  "compare_beliefs bp st =
     foldE (\<lambda>i (dfs, old_beliefs).
         bindE (beliefV bp i) (\<lambda>nb.
         bindE (nth_chk old_beliefs i) (\<lambda>ob.
         bindE (dist nb ob DISTLINF) (\<lambda>d.
         Inr (Diffs_push dfs d, old_beliefs[i := nb])))))
       [0..<nrVars bp] st"

text \<open>
  The loop of \<^verbatim>\<open>BP::run\<close>. The first argument counts the passes that
  \<^verbatim>\<open>MaxIter()\<close> still allows; \<open>rnd\<close> is the permutation \<^verbatim>\<open>random_shuffle\<close>
  applies, which comes from the random source.
\<close>

fun run_loop :: "((nat \<times> nat) list \<Rightarrow> (nat \<times> nat) list) \<Rightarrow> nat \<Rightarrow> nat
                   \<Rightarrow> BP \<times> Diffs \<times> TFactor list \<times> (nat \<times> nat) list
                   \<Rightarrow> error + BP \<times> Diffs \<times> TFactor list \<times> (nat \<times> nat) list" where
  "run_loop rnd nredges 0 st = Inr st"
| "run_loop rnd nredges (Suc k) (bp, dfs, old_beliefs, update_seq) =
     bindE (Diffs_max dfs) (\<lambda>m.
     bindE (Tol bp) (\<lambda>t.
     if m > t
     then bindE (Updates bp) (\<lambda>u.
          bindE (if u = SEQMAX then bindE (sweep_seqmax nredges bp) (\<lambda>bp'. Inr (bp', update_seq))
                 else if u = PARALL then bindE (sweep_parall bp) (\<lambda>bp'. Inr (bp', update_seq))
                 else let update_seq' = (if u = SEQRND then rnd update_seq else update_seq)
                      in bindE (sweep_seq update_seq' bp) (\<lambda>bp'. Inr (bp', update_seq')))
            (\<lambda>(bp', update_seq').
          bindE (compare_beliefs bp' (dfs, old_beliefs)) (\<lambda>(dfs', old_beliefs').
          run_loop rnd nredges k (bp', dfs', old_beliefs', update_seq'))))
     else Inr (bp, dfs, old_beliefs, update_seq)))"

text \<open>\<^verbatim>\<open>BP::run\<close>: the result is the returned maximum difference and the final state.\<close>

definition run :: "((nat \<times> nat) list \<Rightarrow> (nat \<times> nat) list) \<Rightarrow> BP \<Rightarrow> error + real \<times> BP" where
  "run rnd bp0 =
     bindE (Verbose bp0) (\<lambda>v.
     bindE (foldE (\<lambda>i bs. bindE (beliefV bp0 i) (\<lambda>b. Inr (bs @ [b]))) [0..<nrVars bp0] [])
       (\<lambda>old_beliefs.
     bindE (Updates bp0) (\<lambda>u.
     bindE (if u = SEQMAX then bindE (seqmax_first_pass bp0) (\<lambda>bp. Inr (bp, []))
            else bindE (all_edges bp0) (\<lambda>es. Inr (bp0, es))) (\<lambda>(bp1, update_seq).
     bindE (MaxIter bp1) (\<lambda>mi.
     bindE (run_loop rnd (nrEdges bp0) mi (bp1, Diffs_new (nrVars bp0) 1, old_beliefs, update_seq))
       (\<lambda>(bp2, dfs, old_beliefs', update_seq').
     bindE (Diffs_max dfs) (\<lambda>m.
     Inr (m, bp2\<lparr>maxdiff := m\<rparr>))))))))"

section \<open>Invariants of the engine state\<close>

text \<open>
  What \<^verbatim>\<open>create\<close> establishes and every later call keeps: there is one row of
  edge properties for each variable, and one edge property for each neighbor of
  the variable, whose \<open>iter\<close> is its position in the neighbor list.
\<close>

definition edges_shape :: "BP \<Rightarrow> bool" where
  "edges_shape bp =
     (length (edges bp) = nrVars bp
      \<and> list_all2 (\<lambda>row nbs. map iter nbs = [0..<length row]) (edges bp) (fg_nbV bp))"

text \<open>The residual of the edge \<open>(j, k)\<close>, for an edge of the table.\<close>

definition residual_at :: "BP \<Rightarrow> nat \<Rightarrow> nat \<Rightarrow> real" where
  "residual_at bp j k = residual (edges bp ! j ! k)"

text \<open>The edges of the graph, as pairs of a variable and a neighbor slot.\<close>

definition is_edge :: "BP \<Rightarrow> nat \<Rightarrow> nat \<Rightarrow> bool" where
  "is_edge bp j k = (j < nrVars bp \<and> k < length (edges bp ! j))"

section \<open>The log domain as an image of the linear domain\<close>

text \<open>
  The state of a log-domain engine that corresponds to a linear-domain state: the
  same graph and indices, the logarithm of every live and staged message. The
  residual of an edge does not enter a message; \<open>rf\<close> says how the residuals of
  the two states are related.
\<close>

definition log_edge :: "(real \<Rightarrow> real) \<Rightarrow> EdgeProp \<Rightarrow> EdgeProp" where
  "log_edge rf e =
     e\<lparr>message := map ln (message e), newMessage := map ln (newMessage e),
       residual := rf (residual e)\<rparr>"

definition log_image :: "(real \<Rightarrow> real) \<Rightarrow> BP \<Rightarrow> BP" where
  "log_image rf bp =
     bp\<lparr>edges := map (map (log_edge rf)) (edges bp),
        logDomain := True,
        props := (props bp)\<lparr>logdomain := Some True\<rparr>\<rparr>"




text \<open>
  Two computations correspond when both fail, or both return and the results are
  related.
\<close>

definition sim :: "('a \<Rightarrow> 'b \<Rightarrow> bool) \<Rightarrow> error + 'a \<Rightarrow> error + 'b \<Rightarrow> bool" where
  "sim R a b =
     (case a of
        Inl e \<Rightarrow> (case b of Inl e' \<Rightarrow> True | Inr y \<Rightarrow> False)
      | Inr x \<Rightarrow> (case b of Inl e' \<Rightarrow> False | Inr y \<Rightarrow> R x y))"

text \<open>
  The normalised marginal \<open>marg\<close> that \<^verbatim>\<open>calcNewMessage\<close> computes before it
  stores it: the statements of \<^verbatim>\<open>calcNewMessage\<close> up to \<^verbatim>\<open>marg.normalize\<close>.
\<close>

definition calc_marg :: "BP \<Rightarrow> nat \<Rightarrow> nat \<Rightarrow> error + Prob" where
  "calc_marg bp i sI =
     bindE (nbV bp i) (\<lambda>nbs_i.
     bindE (nth_chk nbs_i sI) (\<lambda>nI.
     let I = node nI in
     bindE (factor bp I) (\<lambda>fI.
     bindE (if logDomain bp then takeLog (p fI) else Inr (p fI)) (\<lambda>prod0.
     bindE (nbF bp I) (\<lambda>nbs_I.
     bindE (foldE (\<lambda>j prod.
              if node j \<noteq> i
              then bindE (edge bp (node j) (dual j)) (\<lambda>ej.
                   bindE (calc_prod_j bp message (node j) I) (\<lambda>prod_j.
                   mult_in (logDomain bp) (index ej) prod_j prod))
              else Inr prod)
            nbs_I prod0) (\<lambda>prod1.
     bindE (unlog (logDomain bp) prod1) (\<lambda>prod.
     bindE (var bp i) (\<lambda>vi.
     bindE (edge bp i sI) (\<lambda>ei.
     bindE (marg_onto (index ei) prod (replicate (states vi) 0)) (\<lambda>marg0.
     normalize (normtype bp) marg0))))))))))"


section \<open>The schedules over any message kernel\<close>













section \<open>Runs in the two domains\<close>




text \<open>
  The order in which \<^verbatim>\<open>findMaxResidual\<close> scans the edges: by variable, then by
  neighbor slot; and one step of its scan, on the loop state \<open>(i, _I, maxres)\<close>.
\<close>

definition lex_le :: "nat \<times> nat \<Rightarrow> nat \<times> nat \<Rightarrow> bool" where
  "lex_le a b = (fst a < fst b \<or> (fst a = fst b \<and> snd a \<le> snd b))"

definition lex_lt :: "nat \<times> nat \<Rightarrow> nat \<times> nat \<Rightarrow> bool" where
  "lex_lt a b = (fst a < fst b \<or> (fst a = fst b \<and> snd a < snd b))"

definition scan_step :: "(nat \<times> nat \<Rightarrow> real) \<Rightarrow> nat \<times> nat \<Rightarrow> nat \<times> nat \<times> real \<Rightarrow> nat \<times> nat \<times> real" where
  "scan_step r e st = (case st of (i, sI, m) \<Rightarrow> if r e > m then (fst e, snd e, r e) else (i, sI, m))"

definition edge_list :: "BP \<Rightarrow> (nat \<times> nat) list" where
  "edge_list bp = concat (map (\<lambda>j. map (\<lambda>k. (j, k)) [0..<length (edges bp ! j)]) [0..<nrVars bp])"


section \<open>What the updates keep\<close>

text \<open>
  Every statement of the engine after \<^verbatim>\<open>create\<close> writes one field of one edge
  property. \<open>keeps_shape\<close> relates two states with the same graph, the same settings
  and the same index tables, so that only messages and residuals may differ;
  \<open>keeps_messages\<close> relates two states that also have the same live messages, so
  that only staged messages and residuals may differ.
\<close>

definition keeps_shape :: "BP \<Rightarrow> BP \<Rightarrow> bool" where
  "keeps_shape bp bp' =
     (fg_vars bp' = fg_vars bp \<and> fg_factors bp' = fg_factors bp
      \<and> fg_nbV bp' = fg_nbV bp \<and> fg_nbF bp' = fg_nbF bp
      \<and> props bp' = props bp \<and> logDomain bp' = logDomain bp \<and> normtype bp' = normtype bp
      \<and> map (map index) (edges bp') = map (map index) (edges bp))"

definition keeps_messages :: "BP \<Rightarrow> BP \<Rightarrow> bool" where
  "keeps_messages bp bp' =
     (keeps_shape bp bp' \<and> map (map message) (edges bp') = map (map message) (edges bp))"

section \<open>Sample inputs\<close>

text \<open>
  Three variables with 2, 3 and 2 states, two factors that share the middle one,
  and a chain: the factor \<open>A\<close> on \<open>x0\<close>, \<open>B\<close> on \<open>x0, x1\<close> and \<open>C\<close> on \<open>x1\<close>.
\<close>

definition x0 :: Var where
  "x0 = \<lparr>label = 0, states = 2\<rparr>"

definition x1 :: Var where
  "x1 = \<lparr>label = 1, states = 3\<rparr>"

definition x2 :: Var where
  "x2 = \<lparr>label = 2, states = 2\<rparr>"

definition f01 :: TFactor where
  "f01 = \<lparr>vars = [x0, x1], p = [1, 2, 3, 4, 5, 6]\<rparr>"

definition f12 :: TFactor where
  "f12 = \<lparr>vars = [x1, x2], p = [1, 10, 100, 1000, 10000, 100000]\<rparr>"

definition chain_props :: Properties where
  "chain_props = \<lparr>updates = Some SEQMAX, tol = Some (1 / 1000), maxiter = Some 10,
                   verbose = Some 0, logdomain = Some False\<rparr>"

definition chain_edges :: "EdgeProp list list" where
  "chain_edges =
     [[\<lparr>index = [0, 1], message = [1, 1], newMessage = [1 / 4, 3 / 4], residual = 3 / 4\<rparr>,
       \<lparr>index = [0, 1, 0, 1, 0, 1], message = [1, 1], newMessage = [3 / 7, 4 / 7],
          residual = 6 / 7\<rparr>],
      [\<lparr>index = [0, 0, 1, 1, 2, 2], message = [1, 1, 1], newMessage = [1 / 7, 1 / 3, 11 / 21],
          residual = 6 / 7\<rparr>,
       \<lparr>index = [0, 1, 2], message = [1, 1, 1], newMessage = [1 / 2, 1 / 4, 1 / 4],
          residual = 3 / 4\<rparr>]]"

definition chain_bp :: BP where
  "chain_bp =
     \<lparr>fg_vars = [x0, x1],
      fg_factors = [\<lparr>vars = [x0], p = [1, 3]\<rparr>, f01, \<lparr>vars = [x1], p = [2, 1, 1]\<rparr>],
      fg_nbV = [[\<lparr>iter = 0, node = 0, dual = 0\<rparr>, \<lparr>iter = 1, node = 1, dual = 0\<rparr>],
                [\<lparr>iter = 0, node = 1, dual = 1\<rparr>, \<lparr>iter = 1, node = 2, dual = 0\<rparr>]],
      fg_nbF = [[\<lparr>iter = 0, node = 0, dual = 0\<rparr>],
                [\<lparr>iter = 0, node = 0, dual = 1\<rparr>, \<lparr>iter = 1, node = 1, dual = 0\<rparr>],
                [\<lparr>iter = 0, node = 1, dual = 1\<rparr>]],
      props = chain_props,
      edges = chain_edges,
      logDomain = False,
      normtype = NORMPROB,
      maxdiff = 0\<rparr>"

text \<open>
  The entropies of the variable beliefs and the divergences of the factor beliefs
  in the sample state \<open>chain_bp\<close>.
\<close>

definition chain_H :: "nat \<Rightarrow> real" where
  "chain_H i =
     (if i = 0 then - (ln (1 / 5) / 5) - 4 * ln (4 / 5) / 5
      else - (ln (1 / 4) / 4) - 7 * ln (7 / 24) / 24 - 11 * ln (11 / 24) / 24)"

definition chain_K :: "nat \<Rightarrow> complex" where
  "chain_K I =
     (if I = 0 then complex_of_real (ln (1 / 5)) / 5 + 4 * complex_of_real (ln (4 / 15)) / 5
      else if I = 1
      then 15 * complex_of_real (ln (3 / 52)) / 26 +
           (2 * complex_of_real (ln (1 / 52)) / 13 +
            (complex_of_real (ln (1 / 26)) / 26 + 3 * complex_of_real (ln (3 / 26)) / 13))
      else complex_of_real (ln (1 / 8)) / 4 + 7 * complex_of_real (ln (7 / 24)) / 24 +
           11 * complex_of_real (ln (11 / 24)) / 24)"

text \<open>The sample state after its staged messages have been committed.\<close>

definition chain_committed :: BP where
  "chain_committed = chain_bp\<lparr>edges := map (map (\<lambda>e. e\<lparr>message := newMessage e\<rparr>)) chain_edges\<rparr>"


text \<open>
  The chain after \<^verbatim>\<open>init\<close>, after the first pass of the SEQMAX schedule, and
  after the first and the second step of its first sweep.
\<close>

definition chain_start :: BP where
  "chain_start =
     chain_bp\<lparr>edges := map (map (\<lambda>e. e\<lparr>newMessage := message e, residual := 0\<rparr>)) chain_edges\<rparr>"

definition chain_pass :: BP where
  "chain_pass =
     chain_bp\<lparr>edges := chain_edges[0 := (chain_edges ! 0)[1 := (chain_edges ! 0 ! 1)\<lparr>residual := 4 / 7\<rparr>]]\<rparr>"

definition chain_step1 :: BP where
  "chain_step1 =
     chain_bp\<lparr>edges :=
       [[\<lparr>index = [0, 1], message = [1, 1], newMessage = [1 / 4, 3 / 4], residual = 3 / 4\<rparr>,
         \<lparr>index = [0, 1, 0, 1, 0, 1], message = [1, 1], newMessage = [3 / 7, 4 / 7],
            residual = 4 / 7\<rparr>],
        [\<lparr>index = [0, 0, 1, 1, 2, 2], message = [1 / 7, 1 / 3, 11 / 21],
            newMessage = [1 / 7, 1 / 3, 11 / 21], residual = 0\<rparr>,
         \<lparr>index = [0, 1, 2], message = [1, 1, 1], newMessage = [1 / 2, 1 / 4, 1 / 4],
            residual = 3 / 4\<rparr>]]\<rparr>"

definition chain_step2 :: BP where
  "chain_step2 =
     chain_bp\<lparr>edges :=
       [[\<lparr>index = [0, 1], message = [1 / 4, 3 / 4], newMessage = [1 / 4, 3 / 4], residual = 0\<rparr>,
         \<lparr>index = [0, 1, 0, 1, 0, 1], message = [1, 1], newMessage = [3 / 7, 4 / 7],
            residual = 4 / 7\<rparr>],
        [\<lparr>index = [0, 0, 1, 1, 2, 2], message = [1 / 7, 1 / 3, 11 / 21],
            newMessage = [7 / 45, 1 / 3, 23 / 45], residual = 4 / 315\<rparr>,
         \<lparr>index = [0, 1, 2], message = [1, 1, 1], newMessage = [1 / 2, 1 / 4, 1 / 4],
            residual = 3 / 4\<rparr>]]\<rparr>"













section \<open>Auxiliary facts\<close>

subsection \<open>Failure-threading loops\<close>

lemma bindE_Inr [simp]: "bindE (Inr x) f = f x"
  by (simp add: bindE_def)

lemma bindE_Inl [simp]: "bindE (Inl e) f = Inl e"
  by (simp add: bindE_def)

lemma nth_chk_in [simp]: "i < length xs \<Longrightarrow> nth_chk xs i = Inr (xs ! i)"
  by (simp add: nth_chk_def)

lemma nth_chk_out [simp]: "\<not> i < length xs \<Longrightarrow> nth_chk xs i = Inl OutOfBounds"
  by (simp add: nth_chk_def)

lemma foldE_append: "foldE f (xs @ ys) s = bindE (foldE f xs s) (foldE f ys)"
  by (induction xs arbitrary: s) (auto simp: bindE_def split: sum.splits)

lemma foldE_upt_update:
  assumes step: "\<And>i q. i < n \<Longrightarrow> length q = n \<Longrightarrow> f i q = Inr (q[i := g i (q ! i)])"
    and len: "length q0 = n" and m: "m \<le> n"
  shows "foldE f [0..<m] q0 = Inr (map (\<lambda>i. g i (q0 ! i)) [0..<m] @ drop m q0)"
  using m
proof (induction m)
  case 0
  then show ?case by simp
next
  case (Suc m)
  let ?q = "map (\<lambda>i. g i (q0 ! i)) [0..<m] @ drop m q0"
  have m: "m < n" using Suc.prems by simp
  have lq: "length ?q = n" using len m by simp
  have qm: "?q ! m = q0 ! m" using len m by (simp add: nth_append)
  have "foldE f [0..<Suc m] q0 = bindE (foldE f [0..<m] q0) (foldE f [m])"
    by (simp add: foldE_append)
  also have "\<dots> = f m ?q" using Suc.IH m by (simp split: sum.splits)
  also have "\<dots> = Inr (?q[m := g m (q0 ! m)])" using step[OF m lq] qm by simp
  also have "?q[m := g m (q0 ! m)] = map (\<lambda>i. g i (q0 ! i)) [0..<Suc m] @ drop (Suc m) q0"
    using len m by (simp add: list_update_append upd_conv_take_nth_drop Cons_nth_drop_Suc)
  finally show ?case .
qed

lemma calcState_cong:
  "(\<And>v. v \<in> set V \<Longrightarrow> x (label v) = y (label v)) \<Longrightarrow> calcState V x = calcState V y"
  by (induction V) auto

lemma valid_state_Cons [simp]:
  "valid_state (v # V) x = (x (label v) < states v \<and> valid_state V x)"
  by (simp add: valid_state_def)

lemma valid_state_Nil [simp]: "valid_state [] x"
  by (simp add: valid_state_def)

lemma valid_stateD: "valid_state V x \<Longrightarrow> v \<in> set V \<Longrightarrow> x (label v) < states v"
  by (simp add: valid_state_def list_all_iff)

lemma wf_VarSet_Cons [simp]:
  "wf_VarSet (v # V) = ((\<forall>w\<in>set V. label v < label w) \<and> wf_VarSet V)"
  by (simp add: wf_VarSet_def)

lemma wf_VarSet_Nil [simp]: "wf_VarSet []"
  by (simp add: wf_VarSet_def)

lemma calcState_less: "valid_state V x \<Longrightarrow> calcState V x < nrStates V"
proof (induction V)
  case Nil
  then show ?case by simp
next
  case (Cons v V)
  then have a: "x (label v) < states v" and b: "calcState V x < nrStates V" by simp_all
  have "x (label v) + states v * calcState V x < states v + states v * calcState V x"
    using a by simp
  also have "\<dots> = states v * Suc (calcState V x)" by simp
  also have "\<dots> \<le> states v * nrStates V" using b by (intro mult_le_mono2) simp
  finally show ?case by simp
qed

lemma calcStates_calcState:
  "wf_VarSet V \<Longrightarrow> valid_state V x \<Longrightarrow> v \<in> set V
     \<Longrightarrow> calcStates V (calcState V x) (label v) = x (label v)"
proof (induction V)
  case Nil
  then show ?case by simp
next
  case (Cons w V)
  then have a: "x (label w) < states w" by simp
  have d: "(x (label w) + states w * calcState V x) div states w = calcState V x"
    using a by simp
  have m: "(x (label w) + states w * calcState V x) mod states w = x (label w)"
    using a by simp
  show ?case
  proof (cases "v = w")
    case True
    then show ?thesis using m by simp
  next
    case False
    then have "v \<in> set V" using Cons.prems by simp
    moreover have "label v \<noteq> label w" using Cons.prems \<open>v \<in> set V\<close> by auto
    ultimately show ?thesis using Cons d by simp
  qed
qed

lemma calcStates_valid:
  "wf_VarSet V \<Longrightarrow> k < nrStates V \<Longrightarrow> valid_state V (calcStates V k)"
proof (induction V arbitrary: k)
  case Nil
  then show ?case by simp
next
  case (Cons w V)
  then have pos: "0 < states w" by (cases "states w") auto
  have "k div states w < nrStates V"
    using Cons.prems pos by (simp add: less_mult_imp_div_less mult.commute)
  then have ih: "valid_state V (calcStates V (k div states w))"
    using Cons by simp
  have "valid_state V ((calcStates V (k div states w))(label w := k mod states w))"
    using ih Cons.prems(1) by (auto simp: valid_state_def list_all_iff)
  then show ?case using pos by (simp add: fun_upd_def)
qed

lemma IndexFor_at_calcState:
  assumes "wf_VarSet outer" "valid_state outer x" "vs_subset inner outer"
  shows "IndexFor_at inner outer (calcState outer x) = calcState inner x"
  unfolding IndexFor_at_def
proof (rule calcState_cong)
  fix v assume "v \<in> set inner"
  then obtain w where w: "w \<in> set outer" "label w = label v"
    using assms(3) by (auto simp: vs_subset_def list_all_iff)
  then show "calcStates outer (calcState outer x) (label v) = x (label v)"
    using calcStates_calcState[OF assms(1,2) w(1)] by simp
qed

lemma vs_union_set: "set (vs_union A B) \<subseteq> set A \<union> set B"
  by (induction A B rule: vs_union.induct) auto

lemma vs_union_labels:
  "label ` set (vs_union A B) = label ` set A \<union> label ` set B"
  by (induction A B rule: vs_union.induct) auto

lemma vs_union_wf: "wf_VarSet A \<Longrightarrow> wf_VarSet B \<Longrightarrow> wf_VarSet (vs_union A B)"
proof (induction A B rule: vs_union.induct)
  case (3 a A b B)
  have l: "\<And>X Y w. w \<in> set (vs_union X Y) \<Longrightarrow> w \<in> set X \<or> w \<in> set Y"
    using vs_union_set by blast
  show ?case
  proof (cases "label a < label b")
    case True
    then show ?thesis using 3 by (fastforce dest: l)
  next
    case False
    note nlt = this
    show ?thesis
    proof (cases "label b < label a")
      case True
      then show ?thesis using 3 nlt by (fastforce dest: l)
    next
      case False
      then show ?thesis using 3 nlt by (fastforce dest: l)
    qed
  qed
qed simp_all

lemma vs_union_eq: "vs_eq B A \<Longrightarrow> vs_union A B = A"
  by (induction A B rule: vs_union.induct) (auto simp: vs_eq_def)

lemma vs_subset_union1: "vs_subset A (vs_union A B)"
  using vs_union_labels[of A B] by (auto simp: vs_subset_def list_all_iff)

lemma vs_subset_union2: "vs_subset B (vs_union A B)"
  using vs_union_labels[of A B] by (auto simp: vs_subset_def list_all_iff)

lemma wf_VarSet_label_inj:
  "wf_VarSet V \<Longrightarrow> a \<in> set V \<Longrightarrow> b \<in> set V \<Longrightarrow> label a = label b \<Longrightarrow> a = b"
  by (induction V) auto

lemma consistentD:
  "consistent A B \<Longrightarrow> a \<in> set A \<Longrightarrow> b \<in> set B \<Longrightarrow> label a = label b \<Longrightarrow> states a = states b"
  by (auto simp: consistent_def list_all_iff)

lemma valid_state_union1:
  assumes "wf_VarSet A" "consistent A B" "valid_state (vs_union A B) x"
  shows "valid_state A x"
  unfolding valid_state_def list_all_iff
proof
  fix a assume a: "a \<in> set A"
  then have "label a \<in> label ` set (vs_union A B)" by (simp add: vs_union_labels)
  then obtain u where u: "u \<in> set (vs_union A B)" "label u = label a" by auto
  have ux: "x (label u) < states u" using valid_stateD[OF assms(3) u(1)] .
  from u(1) vs_union_set have "u \<in> set A \<or> u \<in> set B" by blast
  then have "states u = states a"
  proof
    assume "u \<in> set A"
    then show ?thesis using wf_VarSet_label_inj[OF assms(1) _ a u(2)] by simp
  next
    assume "u \<in> set B"
    then show ?thesis using consistentD[OF assms(2) a _] u(2) by simp
  qed
  then show "x (label a) < states a" using ux u(2) by simp
qed

lemma valid_state_union2:
  assumes "wf_VarSet B" "consistent A B" "valid_state (vs_union A B) x"
  shows "valid_state B x"
  unfolding valid_state_def list_all_iff
proof
  fix b assume b: "b \<in> set B"
  then have "label b \<in> label ` set (vs_union A B)" by (simp add: vs_union_labels)
  then obtain u where u: "u \<in> set (vs_union A B)" "label u = label b" by auto
  have ux: "x (label u) < states u" using valid_stateD[OF assms(3) u(1)] .
  from u(1) vs_union_set have "u \<in> set A \<or> u \<in> set B" by blast
  then have "states u = states b"
  proof
    assume "u \<in> set B"
    then show ?thesis using wf_VarSet_label_inj[OF assms(1) _ b u(2)] by simp
  next
    assume "u \<in> set A"
    then show ?thesis using consistentD[OF assms(2) _ b] u(2) by simp
  qed
  then show "x (label b) < states b" using ux u(2) by simp
qed

lemma vs_eq_calcState:
  "vs_eq B A \<Longrightarrow> consistent A B \<Longrightarrow> calcState B x = calcState A x"
proof (induction A arbitrary: B)
  case Nil
  then show ?case by (simp add: vs_eq_def)
next
  case (Cons a A)
  then obtain b B' where B: "B = b # B'" by (cases B) (auto simp: vs_eq_def)
  have "vs_eq B' A" "label b = label a" using Cons.prems(1) B by (auto simp: vs_eq_def)
  moreover have "consistent A B'" using Cons.prems(2) B by (auto simp: consistent_def list_all_iff)
  moreover have "states a = states b" using Cons.prems(2) B \<open>label b = label a\<close>
    by (auto simp: consistent_def list_all_iff)
  ultimately show ?case using Cons.IH B by simp
qed

lemma vs_eq_nrStates:
  "vs_eq B A \<Longrightarrow> consistent A B \<Longrightarrow> nrStates B = nrStates A"
proof (induction A arbitrary: B)
  case Nil
  then show ?case by (simp add: vs_eq_def)
next
  case (Cons a A)
  then obtain b B' where B: "B = b # B'" by (cases B) (auto simp: vs_eq_def)
  have "vs_eq B' A" "label b = label a" using Cons.prems(1) B by (auto simp: vs_eq_def)
  moreover have "consistent A B'" using Cons.prems(2) B by (auto simp: consistent_def list_all_iff)
  moreover have "states a = states b" using Cons.prems(2) B \<open>label b = label a\<close>
    by (auto simp: consistent_def list_all_iff)
  ultimately show ?case using Cons.IH B by simp
qed


lemma length_IndexFor [simp]: "length (IndexFor inner outer) = nrStates outer"
  by (simp add: IndexFor_def)

lemma nth_IndexFor [simp]:
  "k < nrStates outer \<Longrightarrow> IndexFor inner outer ! k = IndexFor_at inner outer k"
  by (simp add: IndexFor_def)

lemma IndexFor_at_less:
  assumes "wf_VarSet outer" "k < nrStates outer" "valid_state inner (calcStates outer k)"
  shows "IndexFor_at inner outer k < nrStates inner"
  unfolding IndexFor_at_def using assms(3) by (rule calcState_less)

lemma times_TFactor_general:
  assumes f: "wf_TFactor f" and g: "wf_TFactor g" and c: "consistent (vars f) (vars g)"
    and ne: "\<not> vs_eq (vars g) (vars f)"
  shows "times_TFactor f g =
     Inr \<lparr>vars = vs_union (vars f) (vars g),
          p = map (\<lambda>i. 0 + p f ! IndexFor_at (vars f) (vs_union (vars f) (vars g)) i
                         * p g ! IndexFor_at (vars g) (vs_union (vars f) (vars g)) i)
                [0..<nrStates (vs_union (vars f) (vars g))]\<rparr>"
proof -
  let ?U = "vs_union (vars f) (vars g)"
  let ?n = "nrStates ?U"
  let ?F = "\<lambda>i q.
                 bindE (nth_chk (IndexFor (vars f) ?U) i) (\<lambda>k1.
                 bindE (nth_chk (IndexFor (vars g) ?U) i) (\<lambda>k2.
                 bindE (nth_chk (p f) k1) (\<lambda>a.
                 bindE (nth_chk (p g) k2) (\<lambda>b.
                 bindE (nth_chk q i) (\<lambda>c. Inr (q[i := c + a * b]))))))"
  let ?G = "\<lambda>i c. c + p f ! IndexFor_at (vars f) ?U i * p g ! IndexFor_at (vars g) ?U i"
  have wfU: "wf_VarSet ?U" using f g by (simp add: wf_TFactor_def vs_union_wf)
  have step: "?F i q = Inr (q[i := ?G i (q ! i)])" if i: "i < ?n" and lq: "length q = ?n" for i q
  proof -
    have v: "valid_state ?U (calcStates ?U i)" using wfU i by (rule calcStates_valid)
    have "valid_state (vars f) (calcStates ?U i)"
      using valid_state_union1[OF _ c v] f by (simp add: wf_TFactor_def)
    then have 1: "IndexFor_at (vars f) ?U i < length (p f)"
      using IndexFor_at_less[OF wfU i] f by (simp add: wf_TFactor_def)
    have "valid_state (vars g) (calcStates ?U i)"
      using valid_state_union2[OF _ c v] g by (simp add: wf_TFactor_def)
    then have 2: "IndexFor_at (vars g) ?U i < length (p g)"
      using IndexFor_at_less[OF wfU i] g by (simp add: wf_TFactor_def)
    show ?thesis using i lq 1 2 by simp
  qed
  have "foldE ?F [0..<?n] (replicate ?n 0)
          = Inr (map (\<lambda>i. ?G i (replicate ?n 0 ! i)) [0..<?n] @ drop ?n (replicate ?n 0))"
    by (rule foldE_upt_update[where g = ?G and n = ?n]) (use step in simp_all)
  also have "map (\<lambda>i. ?G i (replicate ?n 0 ! i)) [0..<?n] @ drop ?n (replicate ?n 0)
          = map (\<lambda>i. ?G i 0) [0..<?n]"
    by simp
  finally have loop: "foldE ?F [0..<?n] (replicate ?n 0) = Inr (map (\<lambda>i. ?G i 0) [0..<?n])" .
  show ?thesis
    using ne loop by (simp add: times_TFactor_def TFactor_const_def Let_def)
qed



lemma foldE_single_cell:
  assumes "\<And>i. i \<in> set js \<Longrightarrow> i < length ix \<and> ix ! i = 0"
  shows "foldE (\<lambda>i q. bindE (nth_chk ix i) (\<lambda>k. bindE (nth_chk q k) (\<lambda>c. Inr (q[k := c + a ! i]))))
           js [c]
         = Inr [fold (\<lambda>i s. s + a ! i) js c]"
  using assms by (induction js arbitrary: c) simp_all

lemma fold_nth_upt: "fold (\<lambda>i s. s + a ! i) [0..<length a] c = fold (\<lambda>x s. s + x) a (c::real)"
proof -
  have "fold (\<lambda>x s. s + x) (map (\<lambda>i. a ! i) [0..<length a]) c
          = fold ((\<lambda>x s. s + x) \<circ> (\<lambda>i. a ! i)) [0..<length a] c"
    by (simp add: fold_map)
  then show ?thesis by (simp add: map_nth comp_def)
qed

lemma fold_ge_init:
  assumes "\<And>z s. (s::real) \<le> f z s"
  shows "s \<le> fold f zs s"
proof (induction zs arbitrary: s)
  case Nil
  then show ?case by simp
next
  case (Cons z zs)
  have "s \<le> f z s" by (rule assms)
  also have "\<dots> \<le> fold f zs (f z s)" by (rule Cons.IH)
  finally show ?case by simp
qed

lemma dist_Prob_nonneg:
  assumes "dt \<noteq> DISTKL" "dist_Prob a b dt = Inr d"
  shows "0 \<le> d"
proof (cases dt)
  case DISTL1
  have "0 \<le> fold (\<lambda>(x, y) s. s + \<bar>x - y\<bar>) (zip a b) (0::real)"
    by (rule fold_ge_init) auto
  then show ?thesis using assms DISTL1 by (auto simp: dist_Prob_def split: if_splits)
next
  case DISTLINF
  have "0 \<le> fold (\<lambda>(x, y) z. if \<bar>x - y\<bar> > z then \<bar>x - y\<bar> else z) (zip a b) (0::real)"
    by (rule fold_ge_init) auto
  then show ?thesis using assms DISTLINF by (auto simp: dist_Prob_def split: if_splits)
next
  case DISTTV
  have "0 \<le> fold (\<lambda>(x, y) s. s + \<bar>x - y\<bar>) (zip a b) (0::real)"
    by (rule fold_ge_init) auto
  then show ?thesis using assms DISTTV by (auto simp: dist_Prob_def split: if_splits)
next
  case DISTKL
  then show ?thesis using assms by simp
next
  case DISTHEL
  have "0 \<le> fold (\<lambda>(x, y) s. s + (sqrt x - sqrt y)\<^sup>2) (zip a b) (0::real)"
    by (rule fold_ge_init) auto
  then show ?thesis using assms DISTHEL by (auto simp: dist_Prob_def split: if_splits)
qed



lemma foldE_Inr:
  "(\<And>x s. x \<in> set xs \<Longrightarrow> f x s = Inr (g x s)) \<Longrightarrow> foldE f xs s = Inr (fold g xs s)"
  by (induction xs arbitrary: s) simp_all

lemma scan_step_simp:
  "scan_step r e (i, sI, m) = (if r e > m then (fst e, snd e, r e) else (i, sI, m))"
  by (simp add: scan_step_def)

lemma scan_max:
  assumes "sorted_wrt lex_lt xs" "\<forall>e\<in>set xs. lex_le b e"
    and "fold (scan_step r) xs (fst b, snd b, r b) = (i, sI, m)"
  shows "(i, sI) \<in> insert b (set xs) \<and> m = r (i, sI)
       \<and> (\<forall>e\<in>insert b (set xs). r e \<le> m \<and> (r e = m \<longrightarrow> lex_le (i, sI) e))"
  using assms
proof (induction xs arbitrary: b)
  case Nil
  then show ?case by (auto simp: lex_le_def)
next
  case (Cons e xs)
  show ?case
  proof (cases "r e > r b")
    case True
    have s: "sorted_wrt lex_lt xs" using Cons.prems(1) by simp
    have "\<forall>e'\<in>set xs. lex_lt e e'" using Cons.prems(1) by simp
    then have le: "\<forall>e'\<in>set xs. lex_le e e'" by (auto simp: lex_le_def lex_lt_def)
    have f: "fold (scan_step r) xs (fst e, snd e, r e) = (i, sI, m)"
      using Cons.prems(3) True by (simp add: scan_step_simp)
    from Cons.IH[OF s le f] True show ?thesis by auto
  next
    case False
    have s: "sorted_wrt lex_lt xs" and le: "\<forall>e'\<in>set xs. lex_le b e'"
      using Cons.prems(1,2) by auto
    have f: "fold (scan_step r) xs (fst b, snd b, r b) = (i, sI, m)"
      using Cons.prems(3) False by (simp add: scan_step_simp)
    note ih = Cons.IH[OF s le f]
    have be: "lex_le b e" using Cons.prems(2) by simp
    have "r e \<le> m" using ih False by force
    moreover have "lex_le (i, sI) e" if "r e = m"
    proof -
      have "r b = m" using ih False that by force
      then have "lex_le (i, sI) b" using ih by simp
      then show ?thesis using be by (auto simp: lex_le_def)
    qed
    ultimately show ?thesis using ih by auto
  qed
qed

lemma sorted_rows:
  "sorted_wrt lex_lt (concat (map (\<lambda>j. map (\<lambda>k. (j, k)) [0..<len j]) [0..<n]))"
proof (induction n)
  case 0
  then show ?case by simp
next
  case (Suc n)
  have a: "sorted_wrt lex_lt (map (\<lambda>k. (n, k)) [0..<len n])"
    by (simp add: sorted_wrt_iff_nth_less lex_lt_def)
  have b: "\<forall>x\<in>set (concat (map (\<lambda>j. map (\<lambda>k. (j, k)) [0..<len j]) [0..<n])).
           \<forall>y\<in>set (map (\<lambda>k. (n, k)) [0..<len n]). lex_lt x y"
    by (auto simp: lex_lt_def)
  show ?case using Suc a b by (simp add: sorted_wrt_append)
qed

lemma fold_concat_rows: "fold f (concat xss) s = fold (fold f) xss s"
  by (induction xss arbitrary: s) simp_all

lemma set_edge_list: "set (edge_list bp) = {(j, k). is_edge bp j k}"
  by (auto simp: edge_list_def is_edge_def)

lemma edges_shapeD:
  assumes "edges_shape bp" "j < nrVars bp"
  shows "j < length (fg_nbV bp)" "j < length (edges bp)"
    "map iter (fg_nbV bp ! j) = [0..<length (edges bp ! j)]"
  using assms by (auto simp: edges_shape_def list_all2_conv_all_nth)

lemma findMaxResidual_scan:
  assumes sh: "edges_shape bp" and e00: "is_edge bp 0 0"
  shows "findMaxResidual bp =
     Inr (case fold (scan_step (\<lambda>(j, k). residual_at bp j k)) (edge_list bp)
                 (0, 0, residual_at bp 0 0) of (i, sI, m) \<Rightarrow> (i, sI))"
proof -
  let ?r = "\<lambda>(j, k). residual_at bp j k"
  let ?inner = "\<lambda>j. (\<lambda>I (i, sI, maxres).
               bindE (edge bp j (iter I)) (\<lambda>e.
               if residual e > maxres then Inr (j, iter I, residual e)
               else Inr (i, sI, maxres)))"
  have inner: "foldE (?inner j) (fg_nbV bp ! j) st
      = Inr (fold (scan_step ?r) (map (\<lambda>k. (j, k)) [0..<length (edges bp ! j)]) st)"
    if j: "j < nrVars bp" for j st
  proof -
    have "foldE (?inner j) (fg_nbV bp ! j) st
        = Inr (fold (\<lambda>I. scan_step ?r (j, iter I)) (fg_nbV bp ! j) st)"
    proof (rule foldE_Inr)
      fix I s assume "I \<in> set (fg_nbV bp ! j)"
      then have "iter I \<in> set (map iter (fg_nbV bp ! j))" by simp
      then have "iter I < length (edges bp ! j)" using edges_shapeD(3)[OF sh j] by simp
      then show "?inner j I s = Inr (scan_step ?r (j, iter I) s)"
        using edges_shapeD(2)[OF sh j]
        by (cases s) (simp add: edge_def scan_step_simp residual_at_def)
    qed
    also have "fold (\<lambda>I. scan_step ?r (j, iter I)) (fg_nbV bp ! j) st
        = fold (scan_step ?r) (map (\<lambda>k. (j, k)) (map iter (fg_nbV bp ! j))) st"
      by (simp add: fold_map comp_def)
    finally show ?thesis using edges_shapeD(3)[OF sh j] by simp
  qed
  have outer: "foldE (\<lambda>j st. bindE (nbV bp j) (\<lambda>nbs. foldE (?inner j) nbs st)) [0..<nrVars bp] st
      = Inr (fold (\<lambda>j. fold (scan_step ?r) (map (\<lambda>k. (j, k)) [0..<length (edges bp ! j)]))
               [0..<nrVars bp] st)" for st
  proof (rule foldE_Inr)
    fix j s assume "j \<in> set [0..<nrVars bp]"
    then have j: "j < nrVars bp" by simp
    show "bindE (nbV bp j) (\<lambda>nbs. foldE (?inner j) nbs s)
        = Inr (fold (scan_step ?r) (map (\<lambda>k. (j, k)) [0..<length (edges bp ! j)]) s)"
      using inner[OF j] edges_shapeD(1)[OF sh j] by (simp add: nbV_def)
  qed
  have cc: "fold (\<lambda>j. fold (scan_step ?r) (map (\<lambda>k. (j, k)) [0..<length (edges bp ! j)]))
               [0..<nrVars bp] st = fold (scan_step ?r) (edge_list bp) st" for st
    by (simp add: edge_list_def fold_concat_rows fold_map comp_def)
  have "edge bp 0 0 = Inr (edges bp ! 0 ! 0)"
    using e00 edges_shapeD(2)[OF sh, of 0] by (simp add: is_edge_def edge_def)
  then obtain e0 where e0: "edge bp 0 0 = Inr e0" "residual e0 = residual_at bp 0 0"
    by (simp add: residual_at_def)
  show ?thesis
    unfolding findMaxResidual_def e0(1) bindE_Inr e0(2) outer cc
    by (simp split: prod.splits)
qed

subsection \<open>The search for a factor, and sums accumulated in a loop\<close>




lemma foldE_sum:
  assumes "\<And>i s. i \<in> set xs \<Longrightarrow> f i s = Inr (s + g i)"
  shows "foldE f xs (s::complex) = Inr (s + sum_list (map g xs))"
  using assms by (induction xs arbitrary: s) (simp_all add: add.assoc)

lemma foldE_diff:
  assumes "\<And>i s. i \<in> set xs \<Longrightarrow> f i s = Inr (s - g i)"
  shows "foldE f xs (s::complex) = Inr (s - sum_list (map g xs))"
  using assms by (induction xs arbitrary: s) (simp_all add: algebra_simps)


section \<open>The steps of the SEQMAX schedule\<close>

text \<open>
  The kernel \<^verbatim>\<open>calcNewMessage\<close> computes the normalised marginal and then stores it.
\<close>

lemma bindE_assoc: "bindE (bindE m f) g = bindE m (\<lambda>x. bindE (f x) g)"
  by (cases m) simp_all

lemma calcNewMessage_alt:
  "calcNewMessage bp i sI =
     bindE (calc_marg bp i sI) (\<lambda>marg.
       if logDomain bp
       then bindE (takeLog marg) (\<lambda>lm. upd_edge bp i sI (\<lambda>e. e\<lparr>newMessage := lm\<rparr>))
       else upd_edge bp i sI (\<lambda>e. e\<lparr>newMessage := marg\<rparr>))"
  unfolding calcNewMessage_def calc_marg_def Let_def bindE_assoc ..

lemma bindE_InrD: "bindE m f = Inr y \<Longrightarrow> \<exists>x. m = Inr x \<and> f x = Inr y"
  by (cases m) simp_all

lemma keeps_shape_refl: "keeps_shape bp bp"
  by (simp add: keeps_shape_def)

lemma keeps_shape_trans: "keeps_shape a b \<Longrightarrow> keeps_shape b c \<Longrightarrow> keeps_shape a c"
  by (simp add: keeps_shape_def)

lemma keeps_messages_refl: "keeps_messages bp bp"
  by (simp add: keeps_messages_def keeps_shape_refl)

lemma keeps_messages_trans:
  "keeps_messages a b \<Longrightarrow> keeps_messages b c \<Longrightarrow> keeps_messages a c"
  unfolding keeps_messages_def using keeps_shape_trans by auto

lemma keeps_messages_shape: "keeps_messages a b \<Longrightarrow> keeps_shape a b"
  by (simp add: keeps_messages_def)

lemma upd_edge_InrD:
  assumes "upd_edge bp a b f = Inr bp'"
  shows "a < length (edges bp)" "b < length (edges bp ! a)"
    "bp' = bp\<lparr>edges := (edges bp)[a := (edges bp ! a)[b := f (edges bp ! a ! b)]]\<rparr>"
proof -
  show a: "a < length (edges bp)"
    using assms by (cases "a < length (edges bp)") (simp_all add: upd_edge_def edge_def)
  show b: "b < length (edges bp ! a)"
    using assms a by (cases "b < length (edges bp ! a)") (simp_all add: upd_edge_def edge_def)
  show "bp' = bp\<lparr>edges := (edges bp)[a := (edges bp ! a)[b := f (edges bp ! a ! b)]]\<rparr>"
    using assms a b by (simp add: upd_edge_def edge_def)
qed

lemma map_map_update:
  assumes "a < length E" "b < length (E ! a)"
  shows "map (map g) (E[a := (E ! a)[b := x]]) = (map (map g) E)[a := (map g (E ! a))[b := g x]]"
  using assms by (simp add: map_update)

lemma map_map_update_same:
  assumes "a < length E" "b < length (E ! a)" "g x = g (E ! a ! b)"
  shows "map (map g) (E[a := (E ! a)[b := x]]) = map (map g) E"
proof -
  have "(map g (E ! a))[b := g x] = map g (E ! a)"
    using assms by (metis list_update_id nth_map)
  moreover have "(map (map g) E)[a := map g (E ! a)] = map (map g) E"
    using assms(1) by (metis list_update_id nth_map)
  ultimately have e: "(map (map g) E)[a := (map g (E ! a))[b := g x]] = map (map g) E"
    by simp
  have "map (map g) (E[a := (E ! a)[b := x]]) = (map (map g) E)[a := (map g (E ! a))[b := g x]]"
    by (rule map_map_update[OF assms(1,2)])
  also note e
  finally show ?thesis .
qed

lemma nth_map_map:
  assumes "map (map g) A = M" "j < length M" "k < length (M ! j)"
  shows "j < length A" "k < length (A ! j)" "g (A ! j ! k) = M ! j ! k"
proof -
  show j: "j < length A" using assms(1,2) by auto
  have r: "M ! j = map g (A ! j)" using assms(1) j by auto
  show k: "k < length (A ! j)" using assms(3) r by simp
  show "g (A ! j ! k) = M ! j ! k" using r k by simp
qed

lemma upd_edge_keeps_shape:
  assumes f: "\<And>e. index (f e) = index e"
    and u: "upd_edge bp a b f = Inr bp'"
  shows "keeps_shape bp bp'"
proof -
  note d = upd_edge_InrD[OF u]
  have e: "edges bp' = (edges bp)[a := (edges bp ! a)[b := f (edges bp ! a ! b)]]"
    by (subst d(3)) simp
  have i: "map (map index) (edges bp') = map (map index) (edges bp)"
    unfolding e by (rule map_map_update_same[OF d(1,2)]) (simp add: f)
  have r: "fg_vars bp' = fg_vars bp \<and> fg_factors bp' = fg_factors bp
      \<and> fg_nbV bp' = fg_nbV bp \<and> fg_nbF bp' = fg_nbF bp
      \<and> props bp' = props bp \<and> logDomain bp' = logDomain bp \<and> normtype bp' = normtype bp"
    by (subst (1 2 3 4 5 6 7) d(3)) simp
  show ?thesis unfolding keeps_shape_def using i r by blast
qed

lemma upd_edge_keeps:
  assumes f: "\<And>e. message (f e) = message e \<and> index (f e) = index e"
    and u: "upd_edge bp a b f = Inr bp'"
  shows "keeps_messages bp bp'"
proof -
  note d = upd_edge_InrD[OF u]
  have e: "edges bp' = (edges bp)[a := (edges bp ! a)[b := f (edges bp ! a ! b)]]"
    by (subst d(3)) simp
  have m: "map (map message) (edges bp') = map (map message) (edges bp)"
    unfolding e by (rule map_map_update_same[OF d(1,2)]) (simp add: f)
  show ?thesis unfolding keeps_messages_def
    using m upd_edge_keeps_shape[OF _ u] f by blast
qed

lemma calcNewMessage_keeps:
  assumes "calcNewMessage bp i sI = Inr bp'"
  shows "keeps_messages bp bp'"
proof -
  obtain marg where m: "(if logDomain bp
       then bindE (takeLog marg) (\<lambda>lm. upd_edge bp i sI (\<lambda>e. e\<lparr>newMessage := lm\<rparr>))
       else upd_edge bp i sI (\<lambda>e. e\<lparr>newMessage := marg\<rparr>)) = Inr bp'"
    using bindE_InrD[OF assms[unfolded calcNewMessage_alt]] by blast
  show ?thesis
  proof (cases "logDomain bp")
    case True
    then have "bindE (takeLog marg) (\<lambda>lm. upd_edge bp i sI (\<lambda>e. e\<lparr>newMessage := lm\<rparr>)) = Inr bp'"
      using m by simp
    from bindE_InrD[OF this]
    obtain lm where "upd_edge bp i sI (\<lambda>e. e\<lparr>newMessage := lm\<rparr>) = Inr bp'"
      by blast
    then show ?thesis by (rule upd_edge_keeps[rotated]) simp
  next
    case False
    then have "upd_edge bp i sI (\<lambda>e. e\<lparr>newMessage := marg\<rparr>) = Inr bp'" using m by simp
    then show ?thesis by (rule upd_edge_keeps[rotated]) simp
  qed
qed

lemma set_residual_keeps: "set_residual bp i sI r = Inr bp' \<Longrightarrow> keeps_messages bp bp'"
  unfolding set_residual_def by (erule upd_edge_keeps[rotated]) simp

lemma calc_residual_keeps:
  assumes "calc_residual bp i sI = Inr bp'"
  shows "keeps_messages bp bp'"
proof -
  obtain e :: EdgeProp where "bindE (dist_Prob (newMessage e) (message e) DISTLINF) (\<lambda>d. set_residual bp i sI d) = Inr bp'"
    using bindE_InrD[OF assms[unfolded calc_residual_def]] by blast
  from bindE_InrD[OF this] obtain d where "set_residual bp i sI d = Inr bp'" by blast
  then show ?thesis by (rule set_residual_keeps)
qed

lemma foldE_rel:
  assumes rf: "\<And>s. R s s" and tr: "\<And>a b c. R a b \<Longrightarrow> R b c \<Longrightarrow> R a c"
    and st: "\<And>x s s'. f x s = Inr s' \<Longrightarrow> R s s'"
  shows "foldE f xs s = Inr s' \<Longrightarrow> R s s'"
proof (induction xs arbitrary: s)
  case Nil
  then show ?case by (simp add: rf)
next
  case (Cons x xs)
  then obtain s1 where 1: "f x s = Inr s1" "foldE f xs s1 = Inr s'"
    by (cases "f x s") simp_all
  show ?case using tr[OF st[OF 1(1)] Cons.IH[OF 1(2)]] .
qed

lemma foldE_keeps:
  assumes "\<And>x s s'. f x s = Inr s' \<Longrightarrow> keeps_messages s s'"
  shows "foldE f xs s = Inr s' \<Longrightarrow> keeps_messages s s'"
  by (rule foldE_rel[where R = keeps_messages and f = f, OF keeps_messages_refl keeps_messages_trans assms])

lemma foldE_keeps_shape:
  assumes "\<And>x s s'. f x s = Inr s' \<Longrightarrow> keeps_shape s s'"
  shows "foldE f xs s = Inr s' \<Longrightarrow> keeps_shape s s'"
  by (rule foldE_rel[where R = keeps_shape and f = f, OF keeps_shape_refl keeps_shape_trans assms])

lemma recalc_keeps:
  assumes "bindE (calcNewMessage bp j sJ) (\<lambda>bp. calc_residual bp j sJ) = Inr bp'"
  shows "keeps_messages bp bp'"
proof -
  obtain b1 where "calcNewMessage bp j sJ = Inr b1" "calc_residual b1 j sJ = Inr bp'"
    using bindE_InrD[OF assms] by blast
  then show ?thesis
    using keeps_messages_trans[OF calcNewMessage_keeps calc_residual_keeps] by blast
qed

lemma seqmax_first_pass_keeps:
  assumes "seqmax_first_pass bp = Inr bp'"
  shows "keeps_messages bp bp'"
  using assms unfolding seqmax_first_pass_def
proof (rule foldE_keeps[rotated])
  fix i s s'
  assume a: "bindE (nbV s i) (\<lambda>nbs. foldE (\<lambda>I bp. bindE (calcNewMessage bp i (iter I)) (\<lambda>bp. calc_residual bp i (iter I))) nbs s) = Inr s'"
  obtain nbs :: "Neighbor list" where "foldE (\<lambda>I bp. bindE (calcNewMessage bp i (iter I)) (\<lambda>bp. calc_residual bp i (iter I))) nbs s = Inr s'"
    using bindE_InrD[OF a] by blast
  then show "keeps_messages s s'"
    by (rule foldE_keeps[rotated]) (rule recalc_keeps)
qed

lemma keeps_shape_lengths:
  assumes "keeps_shape bp bp'"
  shows "length (edges bp') = length (edges bp)"
    and "a < length (edges bp) \<Longrightarrow> length (edges bp' ! a) = length (edges bp ! a)"
    and "nrVars bp' = nrVars bp"
proof -
  have m: "map (map index) (edges bp') = map (map index) (edges bp)"
    using assms by (simp add: keeps_shape_def)
  show l: "length (edges bp') = length (edges bp)"
    using arg_cong[OF m, of length] by simp
  show "length (edges bp' ! a) = length (edges bp ! a)" if "a < length (edges bp)"
    using arg_cong[OF m, of "\<lambda>E. length (E ! a)"] that l by simp
  show "nrVars bp' = nrVars bp" using assms by (simp add: keeps_shape_def nrVars_def)
qed

lemma keeps_shape_edges_shape:
  assumes "keeps_shape bp bp'"
  shows "edges_shape bp' = edges_shape bp"
proof -
  note k = keeps_shape_lengths[OF assms]
  have g: "fg_nbV bp' = fg_nbV bp" using assms by (simp add: keeps_shape_def)
  have "(\<forall>a<length (edges bp). map iter (fg_nbV bp ! a) = [0..<length (edges bp' ! a)])
        = (\<forall>a<length (edges bp). map iter (fg_nbV bp ! a) = [0..<length (edges bp ! a)])"
    using k(2) by simp
  then show "edges_shape bp' = edges_shape bp"
    unfolding edges_shape_def list_all2_conv_all_nth g k(1) k(3) by simp
qed

lemma keeps_shape_is_edge:
  assumes "keeps_shape bp bp'" "edges_shape bp"
  shows "is_edge bp' j k = is_edge bp j k"
proof (cases "j < nrVars bp")
  case True
  then have "j < length (edges bp)" using assms(2) by (simp add: edges_shape_def)
  then show ?thesis using keeps_shape_lengths[OF assms(1)] by (simp add: is_edge_def)
next
  case False
  then show ?thesis using keeps_shape_lengths[OF assms(1)] by (simp add: is_edge_def)
qed

text \<open>What one step of the SEQMAX schedule does to the state.\<close>

lemma seqmax_step_InrD:
  assumes "seqmax_step bp = Inr bp'"
  shows "\<exists>i sI bp1. findMaxResidual bp = Inr (i, sI) \<and> commit bp i sI = Inr bp1
           \<and> keeps_messages bp1 bp'"
proof -
  obtain e where e: "findMaxResidual bp = Inr e"
    and 1: "(case e of (i, sI) \<Rightarrow>
          bindE (commit bp i sI) (\<lambda>bp1.
          bindE (set_residual bp1 i sI 0) (\<lambda>bp2.
          bindE (nbV bp2 i) (\<lambda>nbs.
          foldE (\<lambda>J bp. if iter J \<noteq> sI
              then bindE (nbF bp (node J)) (\<lambda>nbsJ.
                   foldE (\<lambda>j bp. if node j \<noteq> i
                       then bindE (calcNewMessage bp (node j) (dual j)) (\<lambda>bp. calc_residual bp (node j) (dual j))
                       else Inr bp) nbsJ bp)
              else Inr bp) nbs bp2)))) = Inr bp'"
    using bindE_InrD[OF assms[unfolded seqmax_step_def]] by blast
  obtain i sI where isI: "e = (i, sI)" by (cases e)
  from 1[unfolded isI prod.case] bindE_InrD
  obtain bp1 where c: "commit bp i sI = Inr bp1"
    and 2: "bindE (set_residual bp1 i sI 0) (\<lambda>bp2.
          bindE (nbV bp2 i) (\<lambda>nbs.
          foldE (\<lambda>J bp. if iter J \<noteq> sI
              then bindE (nbF bp (node J)) (\<lambda>nbsJ.
                   foldE (\<lambda>j bp. if node j \<noteq> i
                       then bindE (calcNewMessage bp (node j) (dual j)) (\<lambda>bp. calc_residual bp (node j) (dual j))
                       else Inr bp) nbsJ bp)
              else Inr bp) nbs bp2)) = Inr bp'"
    by (metis (no_types, lifting))
  from bindE_InrD[OF 2]
  obtain bp2 where z: "set_residual bp1 i sI 0 = Inr bp2"
    and 3: "bindE (nbV bp2 i) (\<lambda>nbs.
          foldE (\<lambda>J bp. if iter J \<noteq> sI
              then bindE (nbF bp (node J)) (\<lambda>nbsJ.
                   foldE (\<lambda>j bp. if node j \<noteq> i
                       then bindE (calcNewMessage bp (node j) (dual j)) (\<lambda>bp. calc_residual bp (node j) (dual j))
                       else Inr bp) nbsJ bp)
              else Inr bp) nbs bp2) = Inr bp'"
    by blast
  from bindE_InrD[OF 3]
  obtain nbs :: "Neighbor list" where 4: "foldE (\<lambda>J bp. if iter J \<noteq> sI
              then bindE (nbF bp (node J)) (\<lambda>nbsJ.
                   foldE (\<lambda>j bp. if node j \<noteq> i
                       then bindE (calcNewMessage bp (node j) (dual j)) (\<lambda>bp. calc_residual bp (node j) (dual j))
                       else Inr bp) nbsJ bp)
              else Inr bp) nbs bp2 = Inr bp'"
    by blast
  have k: "keeps_messages bp2 bp'"
    using 4
  proof (rule foldE_keeps[rotated])
    fix J :: Neighbor and s s'
    assume a: "(if iter J \<noteq> sI
              then bindE (nbF s (node J)) (\<lambda>nbsJ.
                   foldE (\<lambda>j bp. if node j \<noteq> i
                       then bindE (calcNewMessage bp (node j) (dual j)) (\<lambda>bp. calc_residual bp (node j) (dual j))
                       else Inr bp) nbsJ s)
              else Inr s) = Inr s'"
    show "keeps_messages s s'"
    proof (cases "iter J \<noteq> sI")
      case True
      then have "bindE (nbF s (node J)) (\<lambda>nbsJ.
                   foldE (\<lambda>j bp. if node j \<noteq> i
                       then bindE (calcNewMessage bp (node j) (dual j)) (\<lambda>bp. calc_residual bp (node j) (dual j))
                       else Inr bp) nbsJ s) = Inr s'"
        using a by simp
      from bindE_InrD[OF this]
      obtain nbsJ :: "Neighbor list" where "foldE (\<lambda>j bp. if node j \<noteq> i
                       then bindE (calcNewMessage bp (node j) (dual j)) (\<lambda>bp. calc_residual bp (node j) (dual j))
                       else Inr bp) nbsJ s = Inr s'"
        by blast
      then show ?thesis
      proof (rule foldE_keeps[rotated])
        fix j :: Neighbor and t t'
        assume b: "(if node j \<noteq> i
                       then bindE (calcNewMessage t (node j) (dual j)) (\<lambda>bp. calc_residual bp (node j) (dual j))
                       else Inr t) = Inr t'"
        show "keeps_messages t t'"
        proof (cases "node j \<noteq> i")
          case True
          then show ?thesis using b recalc_keeps by simp
        next
          case False
          then show ?thesis using b keeps_messages_refl by simp
        qed
      qed
    next
      case False
      then show ?thesis using a keeps_messages_refl by simp
    qed
  qed
  show ?thesis
    using e isI c keeps_messages_trans[OF set_residual_keeps[OF z] k] by blast
qed

lemma commit_messages:
  assumes c: "commit bp i sI = Inr bp1"
  shows "i < length (edges bp)" "sI < length (edges bp ! i)" "keeps_shape bp bp1"
    "map (map message) (edges bp1)
       = (map (map message) (edges bp))[i := (map message (edges bp ! i))[sI := newMessage (edges bp ! i ! sI)]]"
proof -
  note d = upd_edge_InrD[OF c[unfolded commit_def]]
  show "i < length (edges bp)" "sI < length (edges bp ! i)" using d by blast+
  show "keeps_shape bp bp1"
    using c unfolding commit_def by (rule upd_edge_keeps_shape[rotated]) simp
  have e: "edges bp1 = (edges bp)[i := (edges bp ! i)[sI := (edges bp ! i ! sI)\<lparr>message := newMessage (edges bp ! i ! sI)\<rparr>]]"
    by (subst d(3)) simp
  show "map (map message) (edges bp1)
       = (map (map message) (edges bp))[i := (map message (edges bp ! i))[sI := newMessage (edges bp ! i ! sI)]]"
    unfolding e using map_map_update[OF d(1,2), of message] by simp
qed

lemma seqmax_step_commits:
  assumes st: "seqmax_step bp = Inr bp'" and fm: "findMaxResidual bp = Inr (i, sI)"
  shows "keeps_shape bp bp'"
    and "message (edges bp' ! i ! sI) = newMessage (edges bp ! i ! sI)"
    and "j < length (edges bp) \<Longrightarrow> k < length (edges bp ! j) \<Longrightarrow> (j, k) \<noteq> (i, sI)
           \<Longrightarrow> message (edges bp' ! j ! k) = message (edges bp ! j ! k)"
proof -
  obtain bp1 where c: "commit bp i sI = Inr bp1" and k: "keeps_messages bp1 bp'"
    using seqmax_step_InrD[OF st] fm by auto
  note cm = commit_messages[OF c]
  let ?M = "(map (map message) (edges bp))[i := (map message (edges bp ! i))[sI := newMessage (edges bp ! i ! sI)]]"
  have m: "map (map message) (edges bp') = ?M"
    using k cm(4) by (simp add: keeps_messages_def)
  show "keeps_shape bp bp'"
    using keeps_shape_trans[OF cm(3) keeps_messages_shape[OF k]] .
  have 1: "i < length ?M" "sI < length (?M ! i)" using cm(1,2) by simp_all
  show "message (edges bp' ! i ! sI) = newMessage (edges bp ! i ! sI)"
    using nth_map_map(3)[OF m 1] cm(1,2) by simp
  show "message (edges bp' ! j ! k) = message (edges bp ! j ! k)"
    if jk: "j < length (edges bp)" "k < length (edges bp ! j)" "(j, k) \<noteq> (i, sI)"
  proof -
    have 2: "j < length ?M" "k < length (?M ! j)"
      using jk(1,2) cm(1,2) by (simp_all add: nth_list_update)
    show ?thesis using nth_map_map(3)[OF m 2] jk cm(1,2) by (auto simp: nth_list_update)
  qed
qed

lemma sweep_seqmax_keeps_shape:
  "sweep_seqmax n bp = Inr bp' \<Longrightarrow> keeps_shape bp bp'"
  unfolding sweep_seqmax_def
proof (erule foldE_keeps_shape[where f = "\<lambda>t bp. seqmax_step bp", rotated])
  fix s s'
  assume a: "seqmax_step s = Inr s'"
  obtain i sI where "findMaxResidual s = Inr (i, sI)" using seqmax_step_InrD[OF a] by blast
  then show "keeps_shape s s'" using seqmax_step_commits(1)[OF a] by blast
qed

lemma foldE_one: "foldE f [x] s = f x s"
  by (cases "f x s") simp_all

lemma sweep_seqmax_Suc:
  "sweep_seqmax (Suc n) bp = bindE (sweep_seqmax n bp) seqmax_step"
proof -
  have "foldE (\<lambda>t bp. seqmax_step bp) [n] = seqmax_step"
    by (rule ext) (simp only: foldE_one)
  then show ?thesis by (simp add: sweep_seqmax_def foldE_append)
qed

text \<open>
  A run with the SEQMAX schedule is the first pass followed by sweeps of
  \<^verbatim>\<open>nrEdges()\<close> steps each.
\<close>

lemma sweep_seqmax_add:
  "sweep_seqmax (a + b) bp = bindE (sweep_seqmax a bp) (sweep_seqmax b)"
proof (induction b)
  case 0
  show ?case by (cases "sweep_seqmax a bp") (simp_all add: sweep_seqmax_def)
next
  case (Suc b)
  have "sweep_seqmax (Suc b) = (\<lambda>s. bindE (sweep_seqmax b s) seqmax_step)"
    by (rule ext) (rule sweep_seqmax_Suc)
  then show ?case using Suc sweep_seqmax_Suc[of "a + b" bp] by (simp add: bindE_assoc)
qed

lemma keeps_shape_Updates: "keeps_shape bp bp' \<Longrightarrow> Updates bp' = Updates bp"
  by (simp add: keeps_shape_def Updates_def)

lemma run_loop_seqmax:
  assumes "Updates bp = Inr SEQMAX"
    and "run_loop rnd nr k (bp, dfs, ob, us) = Inr (bp', dfs', ob', us')"
  shows "\<exists>m. sweep_seqmax (m * nr) bp = Inr bp'"
  using assms
proof (induction k arbitrary: bp dfs ob us)
  case 0
  then have "sweep_seqmax (0 * nr) bp = Inr bp'" by (simp add: sweep_seqmax_def)
  then show ?case by blast
next
  case (Suc k)
  from Suc.prems(2) obtain m t where mt: "Diffs_max dfs = Inr m" "Tol bp = Inr t"
    by (auto dest!: bindE_InrD)
  show ?case
  proof (cases "m > t")
    case False
    then have "bp' = bp" using Suc.prems(2) mt by simp
    then have "sweep_seqmax (0 * nr) bp = Inr bp'" by (simp add: sweep_seqmax_def)
    then show ?thesis by blast
  next
    case True
    then have "bindE (bindE (sweep_seqmax nr bp) (\<lambda>bp'. Inr (bp', us))) (\<lambda>(bp', update_seq').
          bindE (compare_beliefs bp' (dfs, ob)) (\<lambda>(dfs', old_beliefs').
          run_loop rnd nr k (bp', dfs', old_beliefs', update_seq'))) = Inr (bp', dfs', ob', us')"
      using Suc.prems mt by simp
    then obtain b1 where b1: "sweep_seqmax nr bp = Inr b1"
      and 2: "bindE (compare_beliefs b1 (dfs, ob)) (\<lambda>(dfs', old_beliefs').
          run_loop rnd nr k (b1, dfs', old_beliefs', us)) = Inr (bp', dfs', ob', us')"
      by (cases "sweep_seqmax nr bp") simp_all
    from bindE_InrD[OF 2] obtain d1 o1 where "run_loop rnd nr k (b1, d1, o1, us) = Inr (bp', dfs', ob', us')"
      by auto
    moreover have "Updates b1 = Inr SEQMAX"
      using keeps_shape_Updates[OF sweep_seqmax_keeps_shape[OF b1]] Suc.prems(1) by simp
    ultimately obtain m' where "sweep_seqmax (m' * nr) b1 = Inr bp'" using Suc.IH by blast
    then have "sweep_seqmax (Suc m' * nr) bp = Inr bp'"
      using b1 sweep_seqmax_add[of nr "m' * nr" bp] by simp
    then show ?thesis by blast
  qed
qed

lemma run_seqmax_sweeps:
  assumes u: "Updates bp0 = Inr SEQMAX" and r: "run rnd bp0 = Inr (d, bp')"
  shows "\<exists>bp1 m s. seqmax_first_pass bp0 = Inr bp1
           \<and> sweep_seqmax (m * nrEdges bp0) bp1 = Inr s \<and> bp' = s\<lparr>maxdiff := d\<rparr>"
proof -
  from bindE_InrD[OF r[unfolded run_def]] obtain v where
    0: "bindE (foldE (\<lambda>i bs. bindE (beliefV bp0 i) (\<lambda>b. Inr (bs @ [b]))) [0..<nrVars bp0] [])
       (\<lambda>old_beliefs.
     bindE (Updates bp0) (\<lambda>u.
     bindE (if u = SEQMAX then bindE (seqmax_first_pass bp0) (\<lambda>bp. Inr (bp, []))
            else bindE (all_edges bp0) (\<lambda>es. Inr (bp0, es))) (\<lambda>(bp1, update_seq).
     bindE (MaxIter bp1) (\<lambda>mi.
     bindE (run_loop rnd (nrEdges bp0) mi (bp1, Diffs_new (nrVars bp0) 1, old_beliefs, update_seq))
       (\<lambda>(bp2, dfs, old_beliefs', update_seq').
     bindE (Diffs_max dfs) (\<lambda>m.
     Inr (m, bp2\<lparr>maxdiff := m\<rparr>))))))) = Inr (d, bp')"
    by blast
  from bindE_InrD[OF 0] obtain ob where
    1: "bindE (Updates bp0) (\<lambda>u.
     bindE (if u = SEQMAX then bindE (seqmax_first_pass bp0) (\<lambda>bp. Inr (bp, []))
            else bindE (all_edges bp0) (\<lambda>es. Inr (bp0, es))) (\<lambda>(bp1, update_seq).
     bindE (MaxIter bp1) (\<lambda>mi.
     bindE (run_loop rnd (nrEdges bp0) mi (bp1, Diffs_new (nrVars bp0) 1, ob, update_seq))
       (\<lambda>(bp2, dfs, old_beliefs', update_seq').
     bindE (Diffs_max dfs) (\<lambda>m.
     Inr (m, bp2\<lparr>maxdiff := m\<rparr>)))))) = Inr (d, bp')"
    by blast
  then have "bindE (bindE (seqmax_first_pass bp0) (\<lambda>bp. Inr (bp, []))) (\<lambda>(bp1, update_seq).
     bindE (MaxIter bp1) (\<lambda>mi.
     bindE (run_loop rnd (nrEdges bp0) mi (bp1, Diffs_new (nrVars bp0) 1, ob, update_seq))
       (\<lambda>(bp2, dfs, old_beliefs', update_seq').
     bindE (Diffs_max dfs) (\<lambda>m.
     Inr (m, bp2\<lparr>maxdiff := m\<rparr>))))) = Inr (d, bp')"
    using u by simp
  then obtain bp1 where fp: "seqmax_first_pass bp0 = Inr bp1"
    and 2: "bindE (MaxIter bp1) (\<lambda>mi.
     bindE (run_loop rnd (nrEdges bp0) mi (bp1, Diffs_new (nrVars bp0) 1, ob, []))
       (\<lambda>(bp2, dfs, old_beliefs', update_seq').
     bindE (Diffs_max dfs) (\<lambda>m.
     Inr (m, bp2\<lparr>maxdiff := m\<rparr>)))) = Inr (d, bp')"
    by (cases "seqmax_first_pass bp0") simp_all
  from bindE_InrD[OF 2] obtain mi where
    3: "bindE (run_loop rnd (nrEdges bp0) mi (bp1, Diffs_new (nrVars bp0) 1, ob, []))
       (\<lambda>(bp2, dfs, old_beliefs', update_seq').
     bindE (Diffs_max dfs) (\<lambda>m.
     Inr (m, bp2\<lparr>maxdiff := m\<rparr>))) = Inr (d, bp')"
    by blast
  from bindE_InrD[OF 3] obtain s dfs' ob' us' where
    rl: "run_loop rnd (nrEdges bp0) mi (bp1, Diffs_new (nrVars bp0) 1, ob, []) = Inr (s, dfs', ob', us')"
    and 4: "bindE (Diffs_max dfs') (\<lambda>m. Inr (m, s\<lparr>maxdiff := m\<rparr>)) = Inr (d, bp')"
    by auto
  have e: "bp' = s\<lparr>maxdiff := d\<rparr>" using bindE_InrD[OF 4] by auto
  have "Updates bp1 = Inr SEQMAX"
    using keeps_shape_Updates[OF keeps_messages_shape[OF seqmax_first_pass_keeps[OF fp]]] u by simp
  from run_loop_seqmax[OF this rl] obtain m where "sweep_seqmax (m * nrEdges bp0) bp1 = Inr s"
    by blast
  then show ?thesis using fp e by blast
qed

text \<open>
  \<^verbatim>\<open>create\<close> builds one row for each variable and one edge property for each of its
  neighbors, and \<^verbatim>\<open>init\<close> keeps the table.
\<close>

lemma foldE_snoc:
  "foldE (\<lambda>x acc. bindE (g x) (\<lambda>y. Inr (acc @ [y]))) xs acc = Inr r
     \<Longrightarrow> \<exists>ys. r = acc @ ys \<and> list_all2 (\<lambda>x y. g x = Inr y) xs ys"
proof (induction xs arbitrary: acc)
  case Nil
  then show ?case by simp
next
  case (Cons x xs)
  then obtain a1 where 1: "bindE (g x) (\<lambda>y. Inr (acc @ [y])) = Inr a1"
    and 2: "foldE (\<lambda>x acc. bindE (g x) (\<lambda>y. Inr (acc @ [y]))) xs a1 = Inr r"
    by (cases "bindE (g x) (\<lambda>y. Inr (acc @ [y]))") simp_all
  from bindE_InrD[OF 1] obtain y where y: "g x = Inr y" "a1 = acc @ [y]" by auto
  from Cons.IH[OF 2] obtain ys where "r = a1 @ ys" "list_all2 (\<lambda>x y. g x = Inr y) xs ys"
    by blast
  then have "r = acc @ (y # ys) \<and> list_all2 (\<lambda>x y. g x = Inr y) (x # xs) (y # ys)"
    using y by simp
  then show ?case by blast
qed

lemma create_edges_shape:
  assumes len: "length (fg_nbV bp) = nrVars bp"
    and it: "list_all (\<lambda>nbs. map iter nbs = [0..<length nbs]) (fg_nbV bp)"
    and c: "create bp = Inr bp'"
  shows "edges_shape bp'"
proof -
  let ?h = "\<lambda>v I. bindE (factor bp (node I)) (\<lambda>fI.
               Inr \<lparr>index = IndexFor [v] (vars fI), message = Prob_uniform (states v),
                    newMessage = Prob_uniform (states v), residual = 0\<rparr>)"
  let ?g = "\<lambda>i. bindE (nbV bp i) (\<lambda>nbs. bindE (var bp i) (\<lambda>v.
               foldE (\<lambda>I row. bindE (?h v I) (\<lambda>e. Inr (row @ [e]))) nbs []))"
  have eq: "create bp = bindE (foldE (\<lambda>i es. bindE (?g i) (\<lambda>row. Inr (es @ [row]))) [0..<nrVars bp] [])
              (\<lambda>es. Inr (bp\<lparr>edges := es\<rparr>))"
    by (simp add: create_def bindE_assoc)
  from bindE_InrD[OF c[unfolded eq]] obtain es where
    f: "foldE (\<lambda>i es. bindE (?g i) (\<lambda>row. Inr (es @ [row]))) [0..<nrVars bp] [] = Inr es"
    and b: "bp' = bp\<lparr>edges := es\<rparr>"
    by auto
  from foldE_snoc[OF f] have rows: "list_all2 (\<lambda>i row. ?g i = Inr row) [0..<nrVars bp] es"
    by simp
  then have l: "length es = nrVars bp" by (auto dest: list_all2_lengthD)
  have r: "length (es ! i) = length (fg_nbV bp ! i)" if i: "i < nrVars bp" for i
  proof -
    have gi: "?g i = Inr (es ! i)" using rows i l by (simp add: list_all2_conv_all_nth)
    have nb: "nbV bp i = Inr (fg_nbV bp ! i)" using i len by (simp add: nbV_def)
    from gi[unfolded nb bindE_Inr] bindE_InrD obtain v where
      "foldE (\<lambda>I row. bindE (?h v I) (\<lambda>e. Inr (row @ [e]))) (fg_nbV bp ! i) [] = Inr (es ! i)"
      by (metis (no_types, lifting))
    from foldE_snoc[OF this] show ?thesis by (auto dest: list_all2_lengthD)
  qed
  have "map iter (fg_nbV bp ! i) = [0..<length (es ! i)]" if i: "i < nrVars bp" for i
    using it i len r[OF i] by (simp add: list_all_length)
  then show ?thesis using l len b
    by (simp add: edges_shape_def nrVars_def list_all2_conv_all_nth)
qed

lemma init_edges_shape:
  assumes sh: "edges_shape bp" and i: "init bp = Inr bp'"
  shows "edges_shape bp'"
proof -
  obtain ok b where cp: "checkProperties bp = (ok, b)" by (cases "checkProperties bp")
  have b: "edges_shape b"
    using cp sh by (auto simp: checkProperties_def edges_shape_def nrVars_def split: if_splits option.splits)
  have ok: "ok" using i cp by (cases ok) (simp_all add: init_def)
  let ?f = "\<lambda>i (I::Neighbor) bp.
                  if logDomain bp
                  then bindE (upd_edge bp i (iter I) (\<lambda>e. e\<lparr>message := fill (message e) 0\<rparr>))
                         (\<lambda>bp. upd_edge bp i (iter I) (\<lambda>e. e\<lparr>newMessage := fill (newMessage e) 0\<rparr>))
                  else bindE (upd_edge bp i (iter I) (\<lambda>e. e\<lparr>message := fill (message e) 1\<rparr>))
                         (\<lambda>bp. upd_edge bp i (iter I) (\<lambda>e. e\<lparr>newMessage := fill (newMessage e) 1\<rparr>))"
  have f: "foldE (\<lambda>i bp. bindE (nbV bp i) (\<lambda>nbs. foldE (?f i) nbs bp)) [0..<nrVars b] b = Inr bp'"
    using i cp ok by (simp add: init_def)
  have st: "keeps_shape s s'" if "?f i I s = Inr s'" for i I s s'
  proof (cases "logDomain s")
    case True
    then have "bindE (upd_edge s i (iter I) (\<lambda>e. e\<lparr>message := fill (message e) 0\<rparr>))
                         (\<lambda>bp. upd_edge bp i (iter I) (\<lambda>e. e\<lparr>newMessage := fill (newMessage e) 0\<rparr>)) = Inr s'"
      using that by simp
    from bindE_InrD[OF this] obtain s1 where
      u1: "upd_edge s i (iter I) (\<lambda>e. e\<lparr>message := fill (message e) 0\<rparr>) = Inr s1"
      and u2: "upd_edge s1 i (iter I) (\<lambda>e. e\<lparr>newMessage := fill (newMessage e) 0\<rparr>) = Inr s'"
      by blast
    have "keeps_shape s s1" using u1 by (rule upd_edge_keeps_shape[rotated]) simp
    moreover have "keeps_shape s1 s'" using u2 by (rule upd_edge_keeps_shape[rotated]) simp
    ultimately show ?thesis by (rule keeps_shape_trans)
  next
    case False
    then have "bindE (upd_edge s i (iter I) (\<lambda>e. e\<lparr>message := fill (message e) 1\<rparr>))
                         (\<lambda>bp. upd_edge bp i (iter I) (\<lambda>e. e\<lparr>newMessage := fill (newMessage e) 1\<rparr>)) = Inr s'"
      using that by simp
    from bindE_InrD[OF this] obtain s1 where
      u1: "upd_edge s i (iter I) (\<lambda>e. e\<lparr>message := fill (message e) 1\<rparr>) = Inr s1"
      and u2: "upd_edge s1 i (iter I) (\<lambda>e. e\<lparr>newMessage := fill (newMessage e) 1\<rparr>) = Inr s'"
      by blast
    have "keeps_shape s s1" using u1 by (rule upd_edge_keeps_shape[rotated]) simp
    moreover have "keeps_shape s1 s'" using u2 by (rule upd_edge_keeps_shape[rotated]) simp
    ultimately show ?thesis by (rule keeps_shape_trans)
  qed
  have "keeps_shape b bp'"
    using f
  proof (rule foldE_keeps_shape[rotated])
    fix i s s'
    assume "bindE (nbV s i) (\<lambda>nbs. foldE (?f i) nbs s) = Inr s'"
    from bindE_InrD[OF this] obtain nbs :: "Neighbor list" where "foldE (?f i) nbs s = Inr s'" by blast
    then show "keeps_shape s s'" by (rule foldE_keeps_shape[rotated]) (rule st)
  qed
  then show ?thesis using keeps_shape_edges_shape b by simp
qed


section \<open>The log domain and the linear domain\<close>

subsection \<open>Corresponding computations\<close>

lemma sim_Inr_Inr [simp]: "sim R (Inr x) (Inr y) = R x y"
  by (simp add: sim_def)

lemma sim_Inl_Inl [simp]: "sim R (Inl e) (Inl e')"
  by (simp add: sim_def)

lemma sim_Inl_Inr [simp]: "\<not> sim R (Inl e) (Inr y)"
  by (simp add: sim_def)

lemma sim_Inr_Inl [simp]: "\<not> sim R (Inr x) (Inl e)"
  by (simp add: sim_def)



lemma sim_mono: "sim R a b \<Longrightarrow> (\<And>x y. R x y \<Longrightarrow> S x y) \<Longrightarrow> sim S a b"
  by (cases a; cases b) simp_all


subsection \<open>The fields of the image\<close>

lemma log_image_fields [simp]:
  "fg_vars (log_image rf s) = fg_vars s"
  "fg_factors (log_image rf s) = fg_factors s"
  "fg_nbV (log_image rf s) = fg_nbV s"
  "fg_nbF (log_image rf s) = fg_nbF s"
  "edges (log_image rf s) = map (map (log_edge rf)) (edges s)"
  "logDomain (log_image rf s) = True"
  "normtype (log_image rf s) = normtype s"
  "maxdiff (log_image rf s) = maxdiff s"
  by (simp_all add: log_image_def)


lemma log_edge_fields [simp]:
  "index (log_edge rf e) = index e"
  "message (log_edge rf e) = map ln (message e)"
  "newMessage (log_edge rf e) = map ln (newMessage e)"
  "residual (log_edge rf e) = rf (residual e)"
  by (simp_all add: log_edge_def)








subsection \<open>Logarithms of positive vectors\<close>

lemma list_all_pos_nth: "list_all (\<lambda>x. 0 < x) q \<Longrightarrow> k < length q \<Longrightarrow> 0 < (q ! k :: real)"
  by (simp add: list_all_length)


































subsection \<open>The engine is the instance of the parametrised schedules\<close>








subsection \<open>Residuals of logarithms\<close>



















subsection \<open>The log-domain engine and the engine with ratio residuals\<close>













subsection \<open>The schedules other than SEQMAX\<close>






















section \<open>Pointwise maximum and minimum of factors\<close>

text \<open>
  C1. The claim: for factors with equal VarSets, \<^verbatim>\<open>max(f, g)\<close> is the elementwise
  maximum and \<^verbatim>\<open>min(f, g)\<close> the elementwise minimum. On the two factors
  \<open>[1, 2]\<close> and \<open>[2, 1]\<close> over one binary variable the elementwise maximum is
  \<open>[2, 2]\<close> and the minimum \<open>[1, 1]\<close>; the code returns \<open>[1, 1]\<close> from \<^verbatim>\<open>max\<close>
  and \<open>[2, 2]\<close> from \<^verbatim>\<open>min\<close>.
\<close>

theorem max_min_TFactor_swapped:
  "max_TFactor \<lparr>vars = [\<lparr>label = 0, states = 2\<rparr>], p = [1, 2]\<rparr>
               \<lparr>vars = [\<lparr>label = 0, states = 2\<rparr>], p = [2, 1]\<rparr>
     = Inr \<lparr>vars = [\<lparr>label = 0, states = 2\<rparr>], p = [1, 1]\<rparr>
   \<and> min_TFactor \<lparr>vars = [\<lparr>label = 0, states = 2\<rparr>], p = [1, 2]\<rparr>
                 \<lparr>vars = [\<lparr>label = 0, states = 2\<rparr>], p = [2, 1]\<rparr>
     = Inr \<lparr>vars = [\<lparr>label = 0, states = 2\<rparr>], p = [2, 2]\<rparr>"
  by (simp add: max_TFactor_def min_TFactor_def vs_eq_def min_Prob_def max_Prob_def bindE_def)

section \<open>The distance of two factors\<close>

text \<open>
  C10, as amended. For all factors \<open>f\<close>, \<open>g\<close> and every distance kind \<open>dt\<close>: if the
  VarSet of \<open>f\<close> or of \<open>g\<close> is empty, \<^verbatim>\<open>dist(f, g, dt)\<close> returns \<open>-1\<close>; on
  non-empty VarSets every value it returns for a kind other than Kullback-Leibler is
  nonnegative.
\<close>

theorem dist_sentinel:
  "(vars f = [] \<or> vars g = [] \<longrightarrow> dist f g dt = Inr (- 1))
   \<and> (vars f \<noteq> [] \<and> vars g \<noteq> [] \<and> dt \<noteq> DISTKL \<and> dist f g dt = Inr d \<longrightarrow> 0 \<le> d)"
  using dist_Prob_nonneg[of dt "p f" "p g" d] by (auto simp: dist_def)


theorem dist_sentinel_witness:
  "dist \<lparr>vars = [], p = [3]\<rparr> \<lparr>vars = [x0], p = [1, 2]\<rparr> DISTLINF = Inr (- 1)
   \<and> dist \<lparr>vars = [x0], p = [1, 4]\<rparr> \<lparr>vars = [x0], p = [3, 3]\<rparr> DISTLINF = Inr 2
   \<and> (0::real) \<le> 2"
  using dist_sentinel[of "\<lparr>vars = [], p = [3]\<rparr>" "\<lparr>vars = [x0], p = [1, 2]\<rparr>" DISTLINF 0]
    dist_sentinel[of "\<lparr>vars = [x0], p = [1, 4]\<rparr>" "\<lparr>vars = [x0], p = [3, 3]\<rparr>" DISTLINF 2]
  by (simp add: dist_def dist_Prob_def)

text \<open>
  C10, as stated, includes the Kullback-Leibler kind among the values said to be
  nonnegative: on the factors \<open>[1, 1]\<close> and \<open>[2, 2]\<close> over one binary variable the
  value returned is \<open>- 2 ln 2\<close>.
\<close>

theorem dist_KL_negative:
  "dist \<lparr>vars = [\<lparr>label = 0, states = 2\<rparr>], p = [1, 1]\<rparr>
        \<lparr>vars = [\<lparr>label = 0, states = 2\<rparr>], p = [2, 2]\<rparr> DISTKL = Inr (- (2 * ln 2))
   \<and> - (2 * ln 2) < (0::real)
   \<and> vs_eq [\<lparr>label = 0, states = 2\<rparr>] [\<lparr>label = 0, states = 2\<rparr>]"
  by (simp add: dist_def dist_Prob_def KL_term_def vs_eq_def ln_div)

section \<open>The edge of maximum residual\<close>

text \<open>
  C2. Every step of the SEQMAX schedule selects the edge of maximum residual and
  commits it. On a state with the shape \<^verbatim>\<open>create\<close> gives it, in which variable 0
  has a neighbor, \<^verbatim>\<open>findMaxResidual\<close> returns an edge of the graph whose residual
  is the maximum over all edges, and among the edges of maximum residual the one with
  the lowest variable index, then the lowest neighbor slot; when the step returns,
  the live message of that edge is the message that was staged for it, the live
  message of every other edge is what it was, and the new state has the same shape.
  Every state that a run reaches, by the first pass and then any number of steps,
  has that shape again, so that each of its steps selects and commits in this way.
\<close>

theorem seqmax_step_selects_max:
  assumes sh: "edges_shape bp" and e00: "is_edge bp 0 0"
  shows "(\<exists>i sI. findMaxResidual bp = Inr (i, sI) \<and> is_edge bp i sI
           \<and> (\<forall>j k. is_edge bp j k \<longrightarrow>
                 residual_at bp j k \<le> residual_at bp i sI
                 \<and> (residual_at bp j k = residual_at bp i sI \<longrightarrow> i < j \<or> (i = j \<and> sI \<le> k)))
           \<and> (\<forall>bp'. seqmax_step bp = Inr bp' \<longrightarrow>
                 message (edges bp' ! i ! sI) = newMessage (edges bp ! i ! sI)
                 \<and> (\<forall>j k. is_edge bp j k \<and> (j, k) \<noteq> (i, sI) \<longrightarrow>
                       message (edges bp' ! j ! k) = message (edges bp ! j ! k))
                 \<and> edges_shape bp' \<and> is_edge bp' 0 0))
         \<and> (\<forall>bp1 n s. seqmax_first_pass bp = Inr bp1 \<and> sweep_seqmax n bp1 = Inr s
               \<longrightarrow> edges_shape s \<and> is_edge s 0 0)"
proof (rule conjI)
  let ?r = "\<lambda>(j, k). residual_at bp j k"
  obtain i sI m where f: "fold (scan_step ?r) (edge_list bp) (fst (0::nat, 0::nat), snd (0::nat, 0::nat), ?r (0, 0)) = (i, sI, m)"
    by (metis prod_cases3)
  have srt: "sorted_wrt lex_lt (edge_list bp)" unfolding edge_list_def by (rule sorted_rows)
  have low: "\<forall>e\<in>set (edge_list bp). lex_le (0, 0) e" by (auto simp: lex_le_def)
  note sm = scan_max[OF srt low f]
  have mem: "insert (0, 0) (set (edge_list bp)) = {(j, k). is_edge bp j k}"
    using e00 by (auto simp: set_edge_list)
  have res: "findMaxResidual bp = Inr (i, sI)"
    using findMaxResidual_scan[OF sh e00] f by simp
  have ie: "is_edge bp i sI" using sm mem by auto
  have mx: "residual_at bp j k \<le> residual_at bp i sI
            \<and> (residual_at bp j k = residual_at bp i sI \<longrightarrow> i < j \<or> (i = j \<and> sI \<le> k))"
    if "is_edge bp j k" for j k
  proof -
    have "(j, k) \<in> insert (0, 0) (set (edge_list bp))" using that mem by auto
    then have "?r (j, k) \<le> m \<and> (?r (j, k) = m \<longrightarrow> lex_le (i, sI) (j, k))"
      using sm by blast
    moreover have "m = residual_at bp i sI" using sm by simp
    ultimately show ?thesis by (simp add: lex_le_def)
  qed
  have len: "length (edges bp) = nrVars bp" using sh by (simp add: edges_shape_def)
  have stp: "message (edges bp' ! i ! sI) = newMessage (edges bp ! i ! sI)
       \<and> (\<forall>j k. is_edge bp j k \<and> (j, k) \<noteq> (i, sI) \<longrightarrow>
             message (edges bp' ! j ! k) = message (edges bp ! j ! k))
       \<and> edges_shape bp' \<and> is_edge bp' 0 0"
    if st: "seqmax_step bp = Inr bp'" for bp'
  proof -
    note c = seqmax_step_commits[OF st res]
    have "message (edges bp' ! j ! k) = message (edges bp ! j ! k)"
      if "is_edge bp j k \<and> (j, k) \<noteq> (i, sI)" for j k
      using c(3)[of j k] that len by (simp add: is_edge_def)
    then show ?thesis
      using c(2) keeps_shape_edges_shape[OF c(1)] keeps_shape_is_edge[OF c(1) sh] sh e00
      by blast
  qed
  show "\<exists>i sI. findMaxResidual bp = Inr (i, sI) \<and> is_edge bp i sI
           \<and> (\<forall>j k. is_edge bp j k \<longrightarrow>
                 residual_at bp j k \<le> residual_at bp i sI
                 \<and> (residual_at bp j k = residual_at bp i sI \<longrightarrow> i < j \<or> (i = j \<and> sI \<le> k)))
           \<and> (\<forall>bp'. seqmax_step bp = Inr bp' \<longrightarrow>
                 message (edges bp' ! i ! sI) = newMessage (edges bp ! i ! sI)
                 \<and> (\<forall>j k. is_edge bp j k \<and> (j, k) \<noteq> (i, sI) \<longrightarrow>
                       message (edges bp' ! j ! k) = message (edges bp ! j ! k))
                 \<and> edges_shape bp' \<and> is_edge bp' 0 0)"
    using res ie mx stp by blast
next
  show "\<forall>bp1 n s. seqmax_first_pass bp = Inr bp1 \<and> sweep_seqmax n bp1 = Inr s
               \<longrightarrow> edges_shape s \<and> is_edge s 0 0"
  proof (intro allI impI, elim conjE)
    fix bp1 n s
    assume fp: "seqmax_first_pass bp = Inr bp1" and sw: "sweep_seqmax n bp1 = Inr s"
    have k: "keeps_shape bp s"
      using keeps_shape_trans[OF keeps_messages_shape[OF seqmax_first_pass_keeps[OF fp]]
          sweep_seqmax_keeps_shape[OF sw]] .
    show "edges_shape s \<and> is_edge s 0 0"
      using keeps_shape_edges_shape[OF k] keeps_shape_is_edge[OF k sh] sh e00 by simp
  qed
qed

theorem seqmax_step_selects_max_witness:
  "edges_shape chain_start \<and> is_edge chain_start 0 0
   \<and> seqmax_first_pass chain_start = Inr chain_pass
   \<and> sweep_seqmax 1 chain_pass = Inr chain_step1
   \<and> edges_shape chain_step1 \<and> is_edge chain_step1 0 0
   \<and> findMaxResidual chain_step1 = Inr (0, 0)
   \<and> residual_at chain_step1 0 0 = residual_at chain_step1 1 1
   \<and> seqmax_step chain_step1 = Inr chain_step2
   \<and> message (edges chain_step1 ! 0 ! 0) = [1, 1]
   \<and> newMessage (edges chain_step1 ! 0 ! 0) = [1 / 4, 3 / 4]
   \<and> message (edges chain_step2 ! 0 ! 0) = newMessage (edges chain_step1 ! 0 ! 0)
   \<and> message (edges chain_step2 ! 1 ! 0) = message (edges chain_step1 ! 1 ! 0)"
proof -
  note chain_defs = chain_start_def chain_pass_def chain_step1_def chain_step2_def
    chain_bp_def chain_edges_def chain_props_def x0_def x1_def f01_def
  note acc_defs = var_def factor_def nbV_def nbF_def edge_def upd_edge_def nrVars_def nrFactors_def
  note prob_defs = mult_Prob_def normalize_def totalSum_def unlog_def dist_Prob_def
    Let_def eval_nat_numeral bindE_def upt_conv_Cons
  note bp_defs = calcNewMessage_def calc_prod_j_def mult_in_def marg_onto_def
    commit_def set_residual_def calc_residual_def
  have 1: "edges_shape chain_start"
    by (simp add: edges_shape_def chain_defs nrVars_def upt_conv_Cons)
  have 2: "is_edge chain_start 0 0"
    by (simp add: is_edge_def chain_defs nrVars_def)
  have 3: "seqmax_first_pass chain_start = Inr chain_pass"
    by (simp add: seqmax_first_pass_def chain_defs acc_defs prob_defs bp_defs)
  have 4: "seqmax_step chain_pass = Inr chain_step1"
    by (simp add: seqmax_step_def findMaxResidual_def chain_defs acc_defs prob_defs bp_defs)
  have 5: "sweep_seqmax 1 chain_pass = Inr chain_step1"
    using 4 by (simp add: sweep_seqmax_def)
  have 6: "findMaxResidual chain_step1 = Inr (0, 0)"
    by (simp add: findMaxResidual_def chain_defs acc_defs prob_defs)
  have 7: "seqmax_step chain_step1 = Inr chain_step2"
    by (simp add: seqmax_step_def findMaxResidual_def chain_defs acc_defs prob_defs bp_defs)
  have 8: "residual_at chain_step1 0 0 = residual_at chain_step1 1 1"
    "message (edges chain_step1 ! 0 ! 0) = [1, 1]"
    "newMessage (edges chain_step1 ! 0 ! 0) = [1 / 4, 3 / 4]"
    by (simp_all add: residual_at_def chain_defs)
  have 9: "edges_shape chain_step1 \<and> is_edge chain_step1 0 0"
    using seqmax_step_selects_max[OF 1 2] 3 5 by blast
  have 10: "is_edge chain_step1 1 0" by (simp add: is_edge_def chain_defs nrVars_def)
  have "message (edges chain_step2 ! 0 ! 0) = newMessage (edges chain_step1 ! 0 ! 0)
   \<and> message (edges chain_step2 ! 1 ! 0) = message (edges chain_step1 ! 1 ! 0)"
    using seqmax_step_selects_max[OF conjunct1[OF 9] conjunct2[OF 9]] 6 7 10 by auto
  then show ?thesis using 1 2 3 5 6 7 8 9 by simp
qed

section \<open>The Bethe free energy\<close>

text \<open>
  C3. Whenever the belief of every variable has an entropy \<open>H i\<close> and the belief of
  every factor has a divergence \<open>K I\<close> to the factor, \<^verbatim>\<open>logZ\<close> returns the sum over
  the variables of \<open>(1 - deg i) * H i\<close> minus the sum over the factors of \<open>K I\<close>,
  where \<open>deg i\<close> is the number of neighbors of variable \<open>i\<close>.
\<close>

theorem logZ_Bethe:
  assumes nb: "length (fg_nbV bp) = nrVars bp"
    and H: "\<And>i. i < nrVars bp \<Longrightarrow> bindE (beliefV bp i) entropy_TFactor = Inr (H i)"
    and K: "\<And>I. I < nrFactors bp \<Longrightarrow> bindE (beliefF bp I) (\<lambda>b. KL_dist b (fg_factors bp ! I)) = Inr (K I)"
  shows "logZ bp =
     Inr ((\<Sum>i<nrVars bp. complex_of_real (1 - real (length (fg_nbV bp ! i))) * complex_of_real (H i))
          - (\<Sum>I<nrFactors bp. K I))"
proof -
  let ?f1 = "\<lambda>i sum.
              bindE (nbV bp i) (\<lambda>nbs.
              bindE (beliefV bp i) (\<lambda>b.
              bindE (entropy_TFactor b) (\<lambda>h.
              Inr (sum + complex_of_real (1 - real (length nbs)) * complex_of_real h))))"
  let ?g1 = "\<lambda>i. complex_of_real (1 - real (length (fg_nbV bp ! i))) * complex_of_real (H i)"
  let ?f2 = "\<lambda>I sum.
         bindE (beliefF bp I) (\<lambda>b.
         bindE (factor bp I) (\<lambda>fI.
         bindE (KL_dist b fI) (\<lambda>d.
         Inr (sum - d))))"
  have 1: "foldE ?f1 [0..<nrVars bp] 0 = Inr (0 + sum_list (map ?g1 [0..<nrVars bp]))"
  proof (rule foldE_sum)
    fix i s assume "i \<in> set [0..<nrVars bp]"
    then have i: "i < nrVars bp" by simp
    from H[OF i] obtain b where b: "beliefV bp i = Inr b" "entropy_TFactor b = Inr (H i)"
      by (cases "beliefV bp i") (auto simp: bindE_def)
    show "?f1 i s = Inr (s + ?g1 i)" using i nb b by (simp add: nbV_def)
  qed
  have 2: "foldE ?f2 [0..<nrFactors bp] s = Inr (s - sum_list (map K [0..<nrFactors bp]))" for s
  proof (rule foldE_diff)
    fix I s assume "I \<in> set [0..<nrFactors bp]"
    then have I: "I < nrFactors bp" by simp
    from K[OF I] obtain b where b: "beliefF bp I = Inr b" "KL_dist b (fg_factors bp ! I) = Inr (K I)"
      by (cases "beliefF bp I") (auto simp: bindE_def)
    show "?f2 I s = Inr (s - K I)" using I b by (simp add: factor_def nrFactors_def)
  qed
  have s1: "sum_list (map ?g1 [0..<nrVars bp]) = (\<Sum>i<nrVars bp. ?g1 i)"
    by (simp add: interv_sum_list_conv_sum_set_nat atLeast0LessThan)
  have s2: "sum_list (map K [0..<nrFactors bp]) = (\<Sum>I<nrFactors bp. K I)"
    by (simp add: interv_sum_list_conv_sum_set_nat atLeast0LessThan)
  show ?thesis unfolding logZ_def 1 bindE_Inr 2 s1 s2 by simp
qed

theorem logZ_Bethe_witness:
  "length (fg_nbV chain_bp) = nrVars chain_bp
   \<and> logZ chain_bp =
     Inr ((\<Sum>i<nrVars chain_bp.
             complex_of_real (1 - real (length (fg_nbV chain_bp ! i))) * complex_of_real (chain_H i))
          - (\<Sum>I<nrFactors chain_bp. chain_K I))"
proof -
  note chain_defs = chain_bp_def chain_edges_def chain_props_def x0_def x1_def f01_def
  note acc_defs = var_def factor_def nbV_def nbF_def edge_def nrVars_def nrFactors_def
  note prob_defs = add_Prob_def mult_Prob_def normalize_def totalSum_def unlog_def
    Let_def eval_nat_numeral bindE_def
  note bp_defs = calc_prod_j_def mult_in_def marg_onto_def
  have nb: "length (fg_nbV chain_bp) = nrVars chain_bp" by (simp add: chain_bp_def nrVars_def)
  have h0: "bindE (beliefV chain_bp 0) entropy_TFactor = Inr (chain_H 0)"
    by (simp add: beliefV_def chain_defs acc_defs prob_defs entropy_TFactor_def entropy_def
        chain_H_def)
  have h1: "bindE (beliefV chain_bp (Suc 0)) entropy_TFactor = Inr (chain_H (Suc 0))"
    by (simp add: beliefV_def chain_defs acc_defs prob_defs entropy_TFactor_def entropy_def
        chain_H_def)
  have k0: "bindE (beliefF chain_bp 0) (\<lambda>b. KL_dist b (fg_factors chain_bp ! 0)) = Inr (chain_K 0)"
    by (simp add: beliefF_def chain_defs acc_defs prob_defs bp_defs upt_conv_Cons KL_dist_def
        dist_Prob_def KL_term_def chain_K_def)
  have k1: "bindE (beliefF chain_bp (Suc 0)) (\<lambda>b. KL_dist b (fg_factors chain_bp ! Suc 0))
              = Inr (chain_K (Suc 0))"
    by (simp add: beliefF_def chain_defs acc_defs prob_defs bp_defs upt_conv_Cons KL_dist_def
        dist_Prob_def KL_term_def chain_K_def)
  have k2: "bindE (beliefF chain_bp (Suc (Suc 0))) (\<lambda>b. KL_dist b (fg_factors chain_bp ! Suc (Suc 0)))
              = Inr (chain_K (Suc (Suc 0)))"
    by (simp add: beliefF_def chain_defs acc_defs prob_defs bp_defs upt_conv_Cons KL_dist_def
        dist_Prob_def KL_term_def chain_K_def)
  have H: "bindE (beliefV chain_bp i) entropy_TFactor = Inr (chain_H i)" if "i < nrVars chain_bp" for i
  proof -
    have "i = 0 \<or> i = Suc 0" using that by (auto simp: nrVars_def chain_bp_def)
    then show ?thesis using h0 h1 by auto
  qed
  have K: "bindE (beliefF chain_bp I) (\<lambda>b. KL_dist b (fg_factors chain_bp ! I)) = Inr (chain_K I)"
    if "I < nrFactors chain_bp" for I
  proof -
    have "I = 0 \<or> I = Suc 0 \<or> I = Suc (Suc 0)"
      using that by (auto simp: nrFactors_def chain_bp_def)
    then show ?thesis using k0 k1 k2 by auto
  qed
  show ?thesis using nb logZ_Bethe[OF nb H K] by simp
qed

section \<open>The product of two factors\<close>

text \<open>
  C4. For factors \<open>f\<close> and \<open>g\<close> that satisfy the factor invariant and agree on the
  state counts of shared labels, \<^verbatim>\<open>f * g\<close> returns a factor over the union of the
  two VarSets whose value at the linear index of every joint state \<open>x\<close> of the union
  is the value of \<open>f\<close> at \<open>x\<close> restricted to \<open>f\<close>'s variables times the value of
  \<open>g\<close> at \<open>x\<close> restricted to \<open>g\<close>'s variables.
\<close>

theorem times_TFactor_correct:
  assumes f: "wf_TFactor f" and g: "wf_TFactor g" and c: "consistent (vars f) (vars g)"
  shows "\<exists>h. times_TFactor f g = Inr h
          \<and> vars h = vs_union (vars f) (vars g)
          \<and> label ` set (vars h) = label ` set (vars f) \<union> label ` set (vars g)
          \<and> wf_TFactor h
          \<and> (\<forall>x. valid_state (vars h) x \<longrightarrow>
                p h ! calcState (vars h) x
                  = p f ! calcState (vars f) x * p g ! calcState (vars g) x)"
proof (cases "vs_eq (vars g) (vars f)")
  case True
  let ?h = "f\<lparr>p := map (\<lambda>(x, y). x * y) (zip (p f) (p g))\<rparr>"
  have n: "nrStates (vars g) = nrStates (vars f)" using True c by (rule vs_eq_nrStates)
  then have len: "length (p f) = length (p g)" using f g by (simp add: wf_TFactor_def)
  have U: "vs_union (vars f) (vars g) = vars f" using True by (rule vs_union_eq)
  have 1: "times_TFactor f g = Inr ?h"
    using True len by (simp add: times_TFactor_def mult_Prob_def)
  have 2: "wf_TFactor ?h" using f len by (simp add: wf_TFactor_def)
  have 3: "p ?h ! calcState (vars ?h) x = p f ! calcState (vars f) x * p g ! calcState (vars g) x"
    if "valid_state (vars ?h) x" for x
  proof -
    have "calcState (vars f) x < length (p f)"
      using that calcState_less[of "vars f" x] f by (simp add: wf_TFactor_def)
    moreover have "calcState (vars g) x = calcState (vars f) x"
      using True c by (rule vs_eq_calcState)
    ultimately show ?thesis using len by simp
  qed
  have 4: "label ` set (vars ?h) = label ` set (vars f) \<union> label ` set (vars g)"
    using vs_union_labels[of "vars f" "vars g"] U by simp
  show ?thesis using 1 2 3 4 U by (intro exI[of _ ?h]) simp
next
  case False
  let ?U = "vs_union (vars f) (vars g)"
  let ?h = "\<lparr>vars = ?U,
          p = map (\<lambda>i. 0 + p f ! IndexFor_at (vars f) ?U i * p g ! IndexFor_at (vars g) ?U i)
                [0..<nrStates ?U]\<rparr>"
  have wfU: "wf_VarSet ?U" using f g by (simp add: wf_TFactor_def vs_union_wf)
  have 1: "times_TFactor f g = Inr ?h" using f g c False by (rule times_TFactor_general)
  have 2: "wf_TFactor ?h" using wfU by (simp add: wf_TFactor_def)
  have 3: "p ?h ! calcState (vars ?h) x = p f ! calcState (vars f) x * p g ! calcState (vars g) x"
    if "valid_state (vars ?h) x" for x
  proof -
    have v: "valid_state ?U x" using that by simp
    have k: "calcState ?U x < nrStates ?U" using v by (rule calcState_less)
    have a: "IndexFor_at (vars f) ?U (calcState ?U x) = calcState (vars f) x"
      using wfU v vs_subset_union1 by (rule IndexFor_at_calcState)
    have b: "IndexFor_at (vars g) ?U (calcState ?U x) = calcState (vars g) x"
      using wfU v vs_subset_union2 by (rule IndexFor_at_calcState)
    show ?thesis using k a b by simp
  qed
  have 4: "label ` set (vars ?h) = label ` set (vars f) \<union> label ` set (vars g)"
    using vs_union_labels[of "vars f" "vars g"] by simp
  show ?thesis using 1 2 3 4 by (intro exI[of _ ?h]) simp
qed

theorem times_TFactor_correct_witness:
  "wf_TFactor f01 \<and> wf_TFactor f12 \<and> consistent (vars f01) (vars f12)
   \<and> (\<exists>h. times_TFactor f01 f12 = Inr h
          \<and> vars h = vs_union (vars f01) (vars f12)
          \<and> label ` set (vars h) = label ` set (vars f01) \<union> label ` set (vars f12)
          \<and> wf_TFactor h
          \<and> (\<forall>x. valid_state (vars h) x \<longrightarrow>
                p h ! calcState (vars h) x
                  = p f01 ! calcState (vars f01) x * p f12 ! calcState (vars f12) x))"
proof -
  have 1: "wf_TFactor f01" by (simp add: wf_TFactor_def f01_def x0_def x1_def)
  have 2: "wf_TFactor f12" by (simp add: wf_TFactor_def f12_def x1_def x2_def)
  have 3: "consistent (vars f01) (vars f12)"
    by (simp add: consistent_def f01_def f12_def x0_def x1_def x2_def)
  show ?thesis using 1 2 3 times_TFactor_correct[OF 1 2 3] by simp
qed

section \<open>Resetting the messages\<close>

text \<open>
  C5. The claim: after \<^verbatim>\<open>init()\<close>, and after \<^verbatim>\<open>init(ns)\<close> on the edges of the
  variables in \<open>ns\<close>, the live message and the staged one are both the neutral
  element. In the sample state with committed messages, \<^verbatim>\<open>init()\<close> resets both
  vectors of the edge \<open>(1, 0)\<close> to \<open>[1, 1, 1]\<close>; \<^verbatim>\<open>init({x1})\<close> resets the live
  message and leaves the staged one, from which the beliefs are computed, as it was.
\<close>

theorem init_VarSet_keeps_newMessage:
  "bindE (init chain_committed) (\<lambda>bp. edge bp 1 0)
     = Inr \<lparr>index = [0, 0, 1, 1, 2, 2], message = [1, 1, 1], newMessage = [1, 1, 1],
            residual = 6 / 7\<rparr>
   \<and> bindE (init_VarSet chain_committed [x1]) (\<lambda>bp. edge bp 1 0)
     = Inr \<lparr>index = [0, 0, 1, 1, 2, 2], message = [1, 1, 1],
            newMessage = [1 / 7, 1 / 3, 11 / 21], residual = 6 / 7\<rparr>
   \<and> edge chain_committed 1 0
     = Inr \<lparr>index = [0, 0, 1, 1, 2, 2], message = [1 / 7, 1 / 3, 11 / 21],
            newMessage = [1 / 7, 1 / 3, 11 / 21], residual = 6 / 7\<rparr>"
  by (simp add: init_def init_VarSet_def checkProperties_def chain_committed_def chain_bp_def
      chain_edges_def chain_props_def x0_def x1_def var_def nbV_def edge_def upd_edge_def
      nrVars_def findVar_def fill_def upt_conv_Cons)

section \<open>The belief of a set of variables\<close>




section \<open>Messages and beliefs in the log domain\<close>




section \<open>The marginal over the empty set\<close>

text \<open>
  C8. For every factor \<open>f\<close> with one value for each joint state,
  \<^verbatim>\<open>f.marginal(\<emptyset>, false)\<close> is the factor over no variable whose single value is
  \<^verbatim>\<open>f.totalSum()\<close>; with \<open>normed = true\<close> the single value is 1 whenever the total
  sum is strictly positive.
\<close>

theorem marginal_empty:
  assumes "length (p f) = nrStates (vars f)"
  shows "marginal f [] False = Inr \<lparr>vars = [], p = [totalSum_TFactor f]\<rparr>
       \<and> (0 < totalSum_TFactor f \<longrightarrow> marginal f [] True = Inr \<lparr>vars = [], p = [1]\<rparr>)"
proof -
  let ?ix = "IndexFor [] (vars f)"
  have "foldE (\<lambda>i q. bindE (nth_chk ?ix i) (\<lambda>k. bindE (nth_chk q k) (\<lambda>c. Inr (q[k := c + p f ! i]))))
           [0..<length (p f)] [0]
         = Inr [fold (\<lambda>i s. s + p f ! i) [0..<length (p f)] 0]"
    by (rule foldE_single_cell) (use assms in \<open>simp add: IndexFor_at_def\<close>)
  then have loop: "foldE (\<lambda>i q. bindE (nth_chk ?ix i) (\<lambda>k. bindE (nth_chk q k) (\<lambda>c. Inr (q[k := c + p f ! i]))))
           [0..<length (p f)] [0] = Inr [totalSum (p f)]"
    by (simp add: fold_nth_upt totalSum_def)
  have one: "totalSum [z] = z" for z by (simp add: totalSum_def)
  show ?thesis
    using loop
    by (simp add: marginal_def vs_inter_def TFactor_const_def totalSum_TFactor_def
        normalize_def Let_def one)
qed


theorem marginal_empty_witness:
  "length (p f01) = nrStates (vars f01)
   \<and> marginal f01 [] False = Inr \<lparr>vars = [], p = [21]\<rparr>
   \<and> marginal f01 [] True = Inr \<lparr>vars = [], p = [1]\<rparr>"
proof -
  have 1: "length (p f01) = nrStates (vars f01)" by (simp add: f01_def x0_def x1_def)
  have 2: "totalSum_TFactor f01 = 21" by (simp add: totalSum_TFactor_def totalSum_def f01_def)
  show ?thesis using 1 2 marginal_empty[OF 1] by simp
qed

section \<open>The first read of the scan\<close>

text \<open>
  C9. \<^verbatim>\<open>findMaxResidual\<close> reads \<^verbatim>\<open>residual(0, 0)\<close> before it scans. On a state
  with the shape \<^verbatim>\<open>create\<close> gives it, the call reads outside the edge table when
  the graph has no variable or variable 0 has no neighboring factor, and returns
  an edge, with no read out of bounds, when variable 0 exists and has a neighbor.
\<close>

theorem findMaxResidual_bounds:
  assumes sh: "edges_shape bp"
  shows "if 0 < nrVars bp \<and> fg_nbV bp ! 0 \<noteq> []
         then \<exists>e. findMaxResidual bp = Inr e
         else findMaxResidual bp = Inl OutOfBounds"
proof (cases "0 < nrVars bp \<and> fg_nbV bp ! 0 \<noteq> []")
  case True
  then have "length (map iter (fg_nbV bp ! 0)) \<noteq> 0" by simp
  then have "length (edges bp ! 0) \<noteq> 0" using edges_shapeD(3)[OF sh, of 0] True by simp
  then have "is_edge bp 0 0" using True by (simp add: is_edge_def)
  then show ?thesis using True findMaxResidual_scan[OF sh] by simp
next
  case False
  have "edge bp 0 0 = Inl OutOfBounds"
  proof (cases "0 < nrVars bp")
    case True
    then have "fg_nbV bp ! 0 = []" using False by simp
    then have "length (map iter (fg_nbV bp ! 0)) = 0" by simp
    then have "edges bp ! 0 = []" using edges_shapeD(3)[OF sh True] by simp
    then show ?thesis using edges_shapeD(2)[OF sh True] by (simp add: edge_def)
  next
    case False
    then have "edges bp = []" using sh by (simp add: edges_shape_def)
    then show ?thesis by (simp add: edge_def)
  qed
  then show ?thesis using False by (simp add: findMaxResidual_def)
qed

theorem findMaxResidual_bounds_witness:
  "edges_shape chain_bp \<and> (\<exists>e. findMaxResidual chain_bp = Inr e)
   \<and> edges_shape (chain_bp\<lparr>fg_nbV := [[], [\<lparr>iter = 0, node = 1, dual = 1\<rparr>]],
                             edges := [[], [hd (chain_edges ! 1)]]\<rparr>)
   \<and> findMaxResidual (chain_bp\<lparr>fg_nbV := [[], [\<lparr>iter = 0, node = 1, dual = 1\<rparr>]],
                                 edges := [[], [hd (chain_edges ! 1)]]\<rparr>) = Inl OutOfBounds"
proof -
  let ?b = "chain_bp\<lparr>fg_nbV := [[], [\<lparr>iter = 0, node = 1, dual = 1\<rparr>]],
                      edges := [[], [hd (chain_edges ! 1)]]\<rparr>"
  have 1: "edges_shape chain_bp"
    by (simp add: edges_shape_def chain_bp_def chain_edges_def nrVars_def upt_conv_Cons)
  have 2: "edges_shape ?b"
    by (simp add: edges_shape_def chain_bp_def chain_edges_def nrVars_def)
  have 3: "0 < nrVars chain_bp \<and> fg_nbV chain_bp ! 0 \<noteq> []"
    by (simp add: chain_bp_def nrVars_def)
  have 4: "\<not> (0 < nrVars ?b \<and> fg_nbV ?b ! 0 \<noteq> [])"
    by (simp add: chain_bp_def nrVars_def)
  show ?thesis
    using 1 2 findMaxResidual_bounds[OF 1] findMaxResidual_bounds[OF 2] 3 4 by simp
qed

end
